theory Spec2Isabelle
  imports Complex_Main
begin

section \<open>The host environment of \<^verbatim>\<open>wf-auto-tabs.js\<close>\<close>

text \<open>
  The \<^verbatim>\<open>Timer\<close> class of \<^verbatim>\<open>src/wf-auto-tabs.js\<close> talks to four host
  primitives: \<^verbatim>\<open>Date.now\<close>, \<^verbatim>\<open>setTimeout\<close>, \<^verbatim>\<open>clearTimeout\<close> and
  \<^verbatim>\<open>requestAnimationFrame\<close>. The host is a record that is passed through every
  method. Times are whole milliseconds (\<open>int\<close>); the callbacks handed to the
  constructor are opaque, so they are labels (\<open>nat\<close>) and every invocation is
  appended to the host's \<open>trace\<close> together with the wall-clock time of the call.
\<close>

text \<open>
  A JavaScript number as far as \<^verbatim>\<open>elapsed / this.delay\<close> can produce one: a
  finite value (kept exact, the rounding of doubles is not modelled), the two
  infinities and NaN, which appear when \<^verbatim>\<open>delay\<close> is 0.
\<close>

datatype jsnum = NaN | NegInf | Fin rat | PosInf

text \<open>
  The two closures the timer hands to \<^verbatim>\<open>requestAnimationFrame\<close>:
  \<^verbatim>\<open>() => this.tick(0)\<close> and the \<^verbatim>\<open>animate\<close> closure of one call of
  \<^verbatim>\<open>runProgressAnimation\<close>. The closure variable \<^verbatim>\<open>start\<close> of a loop is only
  read and written by that loop's own \<^verbatim>\<open>animate\<close>, of which at most one copy is
  pending, so its current value travels with the pending callback
  (\<open>None\<close> is \<^verbatim>\<open>undefined\<close>).
\<close>

datatype frame_cb = Tick0 | Animate "int option"

datatype event =
    Completion nat int
  | Progress nat jsnum int
  | TypeError int

record Host =
  now :: int
  timeOrigin :: int
  nextId :: nat
  timeouts :: "(nat \<times> int) list"
  frames :: "frame_cb list"
  trace :: "event list"

text \<open>
  \<^verbatim>\<open>setTimeout(handler, timeout)\<close> takes its delay as a Web IDL \<^verbatim>\<open>long\<close>: the
  number is reduced modulo \<open>2^32\<close> into the signed 32-bit range, and a negative
  result counts as 0. The handle is the next unused positive integer. An entry
  of \<open>timeouts\<close> is the handle and the wall-clock time from which the host may run
  the handler.
\<close>

definition to_long :: "int \<Rightarrow> int" where
  "to_long x =
     (if x mod 4294967296 \<ge> 2147483648 then x mod 4294967296 - 4294967296
      else x mod 4294967296)"

definition timeout_ms :: "int \<Rightarrow> int" where
  "timeout_ms d = max 0 (to_long d)"

definition setTimeout :: "int \<Rightarrow> Host \<Rightarrow> nat \<times> Host" where
  "setTimeout d h =
     (nextId h,
      h\<lparr>nextId := Suc (nextId h),
        timeouts := timeouts h @ [(nextId h, now h + timeout_ms d)]\<rparr>)"

definition clearTimeout :: "nat option \<Rightarrow> Host \<Rightarrow> Host" where
  "clearTimeout i h =
     (case i of
        None \<Rightarrow> h
      | Some k \<Rightarrow> h\<lparr>timeouts := filter (\<lambda>e. fst e \<noteq> k) (timeouts h)\<rparr>)"

definition requestAnimationFrame :: "frame_cb \<Rightarrow> Host \<Rightarrow> Host" where
  "requestAnimationFrame f h = h\<lparr>frames := frames h @ [f]\<rparr>"

text \<open>
  The host before the script runs: the clock reads \<open>t0\<close>, the time origin of the
  page is \<open>origin\<close>, nothing is pending, and \<open>n\<close> timeout handles have been
  handed out already, so the next one is \<open>n + 1\<close>, a positive number.
\<close>

definition init_host :: "int \<Rightarrow> int \<Rightarrow> nat \<Rightarrow> Host" where
  "init_host t0 origin n =
     \<lparr>now = t0, timeOrigin = origin, nextId = Suc n, timeouts = [], frames = [],
      trace = []\<rparr>"

section \<open>The Timer class\<close>

text \<open>
  \<^verbatim>\<open>tick\<close> is \<open>None\<close> when the constructor got no third argument
  (\<^verbatim>\<open>undefined\<close>); \<^verbatim>\<open>timerId\<close> is \<open>None\<close> while the property is
  \<^verbatim>\<open>undefined\<close>.
\<close>

record Timer =
  cb :: nat
  delay :: int
  tick :: "nat option"
  remaining :: int
  start :: int
  timerId :: "nat option"

type_synonym world = "Timer \<times> Host"

definition constructor :: "nat \<Rightarrow> int \<Rightarrow> nat option \<Rightarrow> Timer" where
  "constructor callback d tk =
     \<lparr>cb = callback, delay = d, tick = tk, remaining = d, start = 0,
      timerId = None\<rparr>"

text \<open>JavaScript truthiness of \<^verbatim>\<open>this.timerId\<close> and of the closure's \<^verbatim>\<open>start\<close>.\<close>

definition truthy :: "nat option \<Rightarrow> bool" where
  "truthy i = (case i of None \<Rightarrow> False | Some k \<Rightarrow> k \<noteq> 0)"

text \<open>
  The methods of the class. Each takes the timer and the host and returns both.
  \<^verbatim>\<open>clear()\<close> cancels the handle it holds and forgets it; \<^verbatim>\<open>reset()\<close> does
  that and restores \<^verbatim>\<open>remaining\<close> and \<^verbatim>\<open>start\<close>; \<^verbatim>\<open>pause()\<close> is
  guarded by \<^verbatim>\<open>if (this.start)\<close>; \<^verbatim>\<open>resume()\<close> is guarded by
  \<^verbatim>\<open>if (!this.timerId)\<close> and assigns \<^verbatim>\<open>this.start\<close> only under
  \<^verbatim>\<open>if (this.tick)\<close>.
\<close>

fun clear :: "world \<Rightarrow> world" where
  "clear (t, h) = (t\<lparr>timerId := None\<rparr>, clearTimeout (timerId t) h)"

fun reset :: "world \<Rightarrow> world" where
  "reset (t, h) =
     (case clear (t, h) of
        (t1, h1) \<Rightarrow> (t1\<lparr>remaining := delay t1, start := 0\<rparr>, h1))"

fun pause :: "world \<Rightarrow> world" where
  "pause (t, h) =
     (if start t \<noteq> 0
      then clear (t\<lparr>remaining := remaining t - (now h - start t), start := 0\<rparr>, h)
      else (t, h))"

fun runProgressAnimation :: "world \<Rightarrow> world" where
  "runProgressAnimation (t, h) = (t, requestAnimationFrame (Animate None) h)"

fun resume :: "world \<Rightarrow> world" where
  "resume (t, h) =
     (if \<not> truthy (timerId t)
      then (case setTimeout (remaining t) h of
              (i, h1) \<Rightarrow>
                (if tick t \<noteq> None
                 then runProgressAnimation
                        (t\<lparr>timerId := Some i, start := now h1\<rparr>,
                         requestAnimationFrame Tick0 h1)
                 else (t\<lparr>timerId := Some i\<rparr>, h1)))
      else (t, h))"

text \<open>
  \<^verbatim>\<open>Math.min(elapsed / this.delay, 1) * 100\<close>, with the division by zero of
  JavaScript written out: \<open>0/0\<close> is NaN and stays NaN, a positive number over 0
  is \<open>+Infinity\<close> and is capped at 1, a negative one is \<open>-Infinity\<close>.
\<close>

definition js_div :: "int \<Rightarrow> int \<Rightarrow> jsnum" where
  "js_div a b =
     (if b = 0 then (if a = 0 then NaN else if 0 < a then PosInf else NegInf)
      else Fin (rat_of_int a / rat_of_int b))"

fun progress_of :: "jsnum \<Rightarrow> jsnum" where
  "progress_of NaN = NaN"
| "progress_of NegInf = NegInf"
| "progress_of (Fin q) = Fin (min q 1 * 100)"
| "progress_of PosInf = Fin 100"

text \<open>The value of the closure variable after \<^verbatim>\<open>if (!start) start = timestamp\<close>.\<close>

definition loop_start :: "int option \<Rightarrow> int \<Rightarrow> int" where
  "loop_start st ts = (case st of None \<Rightarrow> ts | Some s \<Rightarrow> if s = 0 then ts else s)"

text \<open>
  \<^verbatim>\<open>if (this.tick) this.tick(progress)\<close>: the call is recorded in the trace.
\<close>

definition call_tick :: "jsnum \<Rightarrow> world \<Rightarrow> Host" where
  "call_tick p w =
     (case tick (fst w) of
        Some k \<Rightarrow> (snd w)\<lparr>trace := trace (snd w) @ [Progress k p (now (snd w))]\<rparr>
      | None \<Rightarrow> snd w)"

fun animate :: "int option \<Rightarrow> int \<Rightarrow> world \<Rightarrow> world" where
  "animate st ts (t, h) =
     (if ts - loop_start st ts < delay t
      then (t, requestAnimationFrame (Animate (Some (loop_start st ts)))
                 (call_tick (progress_of (js_div (ts - loop_start st ts) (delay t))) (t, h)))
      else (t, call_tick (progress_of (js_div (ts - loop_start st ts) (delay t))) (t, h)))"

text \<open>
  Running one registered frame callback. \<^verbatim>\<open>() => this.tick(0)\<close> calls
  \<^verbatim>\<open>this.tick\<close> without a guard, a \<^verbatim>\<open>TypeError\<close> if it were
  \<^verbatim>\<open>undefined\<close>.
\<close>

fun call_frame_cb :: "int \<Rightarrow> world \<Rightarrow> frame_cb \<Rightarrow> world" where
  "call_frame_cb ts (t, h) Tick0 =
     (case tick t of
        Some k \<Rightarrow> (t, call_tick (Fin 0) (t, h))
      | None \<Rightarrow> (t, h\<lparr>trace := trace h @ [TypeError (now h)]\<rparr>))"
| "call_frame_cb ts (t, h) (Animate st) = animate st ts (t, h)"

section \<open>What the host does between two calls\<close>

text \<open>
  A display refresh runs the callbacks registered so far, in order, all with the
  same timestamp (milliseconds since the time origin); callbacks registered
  meanwhile wait for the next refresh. A timeout handler runs no earlier than
  its due time, and the host may be late. The handler is
  \<^verbatim>\<open>() => this.cb()\<close>; the callback is opaque and does not call back into the
  timer. The clock only moves forward.
\<close>

fun frame :: "world \<Rightarrow> world" where
  "frame (t, h) =
     foldl (call_frame_cb (now h - timeOrigin h)) (t, h\<lparr>frames := []\<rparr>) (frames h)"

fun timeout :: "world \<Rightarrow> world" where
  "timeout (t, h) =
     (case find (\<lambda>e. snd e \<le> now h) (timeouts h) of
        None \<Rightarrow> (t, h)
      | Some e \<Rightarrow>
          (t, h\<lparr>timeouts := remove1 e (timeouts h),
                trace := trace h @ [Completion (cb t) (now h)]\<rparr>))"

fun advance :: "nat \<Rightarrow> world \<Rightarrow> world" where
  "advance dt (t, h) = (t, h\<lparr>now := now h + int dt\<rparr>)"

text \<open>
  A run is a list of steps: the three public methods, the passing of \<open>dt\<close>
  milliseconds, a display refresh, and the host looking for a timeout handler
  that is due.
\<close>

datatype op = Resume | Pause | Reset | Advance nat | Frame | Timeout

fun step :: "op \<Rightarrow> world \<Rightarrow> world" where
  "step Resume w = resume w"
| "step Pause w = pause w"
| "step Reset w = reset w"
| "step (Advance dt) w = advance dt w"
| "step Frame w = frame w"
| "step Timeout w = timeout w"

fun run :: "op list \<Rightarrow> world \<Rightarrow> world" where
  "run [] w = w"
| "run (x # xs) w = run xs (step x w)"

text \<open>
  A timer straight out of the constructor, on a host on which nothing is pending.
\<close>

definition fresh :: "nat \<Rightarrow> int \<Rightarrow> nat option \<Rightarrow> int \<Rightarrow> int \<Rightarrow> nat \<Rightarrow> world" where
  "fresh callback d tk t0 origin n = (constructor callback d tk, init_host t0 origin n)"

section \<open>Notions used in the statements\<close>

text \<open>
  The handle invariant: handles are positive, at most one timeout is pending, and
  a pending timeout is the one \<^verbatim>\<open>timerId\<close> names.
\<close>

definition well_formed :: "world \<Rightarrow> bool" where
  "well_formed w =
     (0 < nextId (snd w) \<and> length (timeouts (snd w)) \<le> 1
      \<and> list_all (\<lambda>e. timerId (fst w) = Some (fst e)) (timeouts (snd w))
      \<and> (case timerId (fst w) of None \<Rightarrow> True | Some i \<Rightarrow> 0 < i))"

text \<open>
  A pending timeout handler has reached its due time.
\<close>

definition due :: "world \<Rightarrow> bool" where
  "due w = list_ex (\<lambda>e. snd e \<le> now (snd w)) (timeouts (snd w))"

text \<open>
  Every \<^verbatim>\<open>pause()\<close> of the run that finds a recorded \<^verbatim>\<open>start\<close> comes no
  later than the nominal fire time \<open>start + remaining\<close>.
\<close>

fun timely :: "op list \<Rightarrow> world \<Rightarrow> bool" where
  "timely [] w = True"
| "timely (x # xs) w =
     ((if x = Pause \<and> start (fst w) \<noteq> 0
       then now (snd w) - start (fst w) \<le> remaining (fst w) else True)
      \<and> timely xs (step x w))"

text \<open>
  \<^verbatim>\<open>remaining\<close> is at most \<^verbatim>\<open>delay\<close> and a recorded \<^verbatim>\<open>start\<close> is not in
  the future.
\<close>

definition not_ahead :: "world \<Rightarrow> bool" where
  "not_ahead w =
     (remaining (fst w) \<le> delay (fst w) \<and> (start (fst w) = 0 \<or> start (fst w) \<le> now (snd w)))"

text \<open>
  A progress loop is active while its \<^verbatim>\<open>animate\<close> closure is registered for
  the next display refresh.
\<close>

fun is_loop :: "frame_cb \<Rightarrow> bool" where
  "is_loop Tick0 = False"
| "is_loop (Animate st) = True"

definition active_loops :: "world \<Rightarrow> nat" where
  "active_loops w = length (filter is_loop (frames (snd w)))"

text \<open>
  Every \<^verbatim>\<open>resume()\<close> of the run that starts a progress loop (it finds no
  handle, and the timer has a progress callback) is issued when no earlier loop
  is still registered.
\<close>

fun unhurried :: "op list \<Rightarrow> world \<Rightarrow> bool" where
  "unhurried [] w = True"
| "unhurried (x # xs) w =
     ((if x = Resume \<and> \<not> truthy (timerId (fst w)) \<and> tick (fst w) \<noteq> None
       then active_loops w = 0 else True)
      \<and> unhurried xs (step x w))"

text \<open>
  The values handed to the progress callback, in the order of the calls.
\<close>

fun reported :: "event \<Rightarrow> jsnum list" where
  "reported (Progress k p t) = [p]"
| "reported (Completion c t) = []"
| "reported (TypeError t) = []"

definition progress_values :: "event list \<Rightarrow> jsnum list" where
  "progress_values es = concat (map reported es)"


















text \<open>
  The invocations of the completion callback in a trace, and what a run shows
  from a given state on.
\<close>

fun is_completion :: "event \<Rightarrow> bool" where
  "is_completion (Completion c t) = True"
| "is_completion (Progress k p t) = False"
| "is_completion (TypeError t) = False"

definition completions :: "event list \<Rightarrow> event list" where
  "completions es = filter is_completion es"

definition observe :: "op list \<Rightarrow> world \<Rightarrow> event list" where
  "observe xs w = trace (snd (run xs (fst w, (snd w)\<lparr>trace := []\<rparr>)))"

text \<open>
  Two states agree on everything that decides when the completion callback runs
  (handles may differ as numbers, only their truthiness counts); and two states
  agree on everything a display refresh reads and writes.
\<close>

definition same_timing :: "world \<Rightarrow> world \<Rightarrow> bool" where
  "same_timing w w' =
     (cb (fst w) = cb (fst w') \<and> delay (fst w) = delay (fst w') \<and> tick (fst w) = tick (fst w')
      \<and> remaining (fst w) = remaining (fst w') \<and> start (fst w) = start (fst w')
      \<and> truthy (timerId (fst w)) = truthy (timerId (fst w'))
      \<and> now (snd w) = now (snd w')
      \<and> map snd (timeouts (snd w)) = map snd (timeouts (snd w'))
      \<and> completions (trace (snd w)) = completions (trace (snd w')))"

definition same_frames :: "world \<Rightarrow> world \<Rightarrow> bool" where
  "same_frames w w' =
     (tick (fst w) = tick (fst w') \<and> delay (fst w) = delay (fst w')
      \<and> now (snd w) = now (snd w') \<and> timeOrigin (snd w) = timeOrigin (snd w')
      \<and> frames (snd w) = frames (snd w') \<and> trace (snd w) = trace (snd w'))"

section \<open>The Booster class: attribute validation and parsing\<close>

text \<open>
  The values an attribute can be given: \<^verbatim>\<open>undefined\<close>, \<^verbatim>\<open>null\<close>, booleans,
  numbers and strings. \<^verbatim>\<open>attribute.validate\<close> is absent, a function or an
  array of admissible strings; \<^verbatim>\<open>attribute.parse\<close> is absent or a function.
\<close>

datatype jsval = Undefined | Null | JBool bool | JNum jsnum | JStr string

datatype validator = ByFunction "string \<Rightarrow> bool" | ByList "string list"

record attribute =
  defaultValue :: jsval
  validate :: "validator option"
  parse :: "(string \<Rightarrow> jsval) option"

text \<open>
  A call of \<^verbatim>\<open>this.log(message, details)\<close>: the message, and for a validator
  array the admissible values that the details list. The element is the map
  behind \<^verbatim>\<open>element.getAttribute\<close> (\<open>None\<close> is \<^verbatim>\<open>null\<close>); the
  \<^verbatim>\<open>DataStore\<close> is the object behind \<^verbatim>\<open>set\<close> and \<^verbatim>\<open>get\<close>, where reading
  a key that was never set gives \<^verbatim>\<open>undefined\<close>.
\<close>

datatype log_call = Log string "string list option"

type_synonym DataStore = "string \<rightharpoonup> jsval"

type_synonym element = "string \<rightharpoonup> string"

definition DataStore_set :: "string \<Rightarrow> jsval \<Rightarrow> DataStore \<Rightarrow> DataStore" where
  "DataStore_set key v ds = ds(key \<mapsto> v)"

definition DataStore_get :: "DataStore \<Rightarrow> string \<Rightarrow> jsval" where
  "DataStore_get ds key = (case ds key of None \<Rightarrow> Undefined | Some v \<Rightarrow> v)"

definition invalid_message :: "string \<Rightarrow> string \<Rightarrow> string" where
  "invalid_message v name =
     ''Invalid value '' @ [CHR 0x22] @ v @ [CHR 0x22] @ '' for attribute '' @ [CHR 0x22] @ name @ [CHR 0x22]"

text \<open>
  \<^verbatim>\<open>Booster.validate(attribute, name, value)\<close> returns whether the value is
  admissible and logs when it is not.
\<close>

definition Booster_validate :: "attribute \<Rightarrow> string \<Rightarrow> string \<Rightarrow> bool \<times> log_call list" where
  "Booster_validate a name v =
     (case validate a of
        None \<Rightarrow> (True, [])
      | Some (ByFunction f) \<Rightarrow>
          (if \<not> f v then (False, [Log (invalid_message v name) None]) else (True, []))
      | Some (ByList vs) \<Rightarrow>
          (if v \<notin> set vs then (False, [Log (invalid_message v name) (Some vs)])
           else (True, [])))"

text \<open>
  \<^verbatim>\<open>x ?? d\<close>, and the loop of \<^verbatim>\<open>Booster.parse(element)\<close> over the attributes
  in their order: an absent or empty value stores the default; a value that
  fails validation takes the \<^verbatim>\<open>continue\<close> and stores nothing; any other
  value is parsed and stored. The result is the store handed to
  \<^verbatim>\<open>options.apply\<close>, with the log calls made on the way.
\<close>

definition nullish :: "jsval \<Rightarrow> jsval \<Rightarrow> jsval" where
  "nullish x d = (case x of Undefined \<Rightarrow> d | Null \<Rightarrow> d | _ \<Rightarrow> x)"

fun parse_loop ::
  "(string \<times> attribute) list \<Rightarrow> element \<Rightarrow> DataStore \<times> log_call list
     \<Rightarrow> DataStore \<times> log_call list" where
  "parse_loop [] el s = s"
| "parse_loop ((key, a) # rest) el (ds, lg) =
     (case el key of
        None \<Rightarrow> parse_loop rest el (DataStore_set key (defaultValue a) ds, lg)
      | Some v \<Rightarrow>
          (if v = [] then parse_loop rest el (DataStore_set key (defaultValue a) ds, lg)
           else (case Booster_validate a key v of
                   (ok, msgs) \<Rightarrow>
                     (if \<not> ok then parse_loop rest el (ds, lg @ msgs)
                      else parse_loop rest el
                             (DataStore_set key
                                (case parse a of
                                   None \<Rightarrow> JStr v
                                 | Some p \<Rightarrow> nullish (p v) (defaultValue a))
                                ds,
                              lg @ msgs)))))"

definition Booster_parse :: "(string \<times> attribute) list \<Rightarrow> element \<Rightarrow> DataStore \<times> log_call list" where
  "Booster_parse attributes el = parse_loop attributes el (Map.empty, [])"

text \<open>
  \<^verbatim>\<open>parse.stringToBoolean\<close> and \<^verbatim>\<open>validation.isBoolean\<close>, the regular
  expression \<^verbatim>\<open>/^(true|false)$/\<close>.
\<close>

definition stringToBoolean :: "string \<Rightarrow> jsval" where
  "stringToBoolean v = JBool (v \<noteq> ''false'')"

definition isBoolean :: "string \<Rightarrow> bool" where
  "isBoolean v = (v = ''true'' \<or> v = ''false'')"

text \<open>
  \<^verbatim>\<open>Number(value)\<close> on a string, after ECMAScript's StringToNumber for strings
  of Latin-1 characters: surrounding white space is dropped, the empty string is
  0, then come the hexadecimal, octal and binary literals (unsigned), the signed
  \<^verbatim>\<open>Infinity\<close> and the signed decimal literals with optional fraction and
  exponent; everything else is NaN. Finite values are kept exact.
\<close>

definition is_ws :: "char \<Rightarrow> bool" where
  "is_ws c = (c \<in> set [CHR 0x09, CHR 0x0A, CHR 0x0B, CHR 0x0C, CHR 0x0D, CHR 0x20, CHR 0xA0])"

definition trim :: "string \<Rightarrow> string" where
  "trim s = rev (dropWhile is_ws (rev (dropWhile is_ws s)))"

definition digit_of :: "char \<Rightarrow> nat option" where
  "digit_of c =
     (let n = of_char c :: nat in
      if 48 \<le> n \<and> n \<le> 57 then Some (n - 48)
      else if 97 \<le> n \<and> n \<le> 102 then Some (n - 87)
      else if 65 \<le> n \<and> n \<le> 70 then Some (n - 55)
      else None)"

definition is_digit :: "nat \<Rightarrow> char \<Rightarrow> bool" where
  "is_digit base c = (case digit_of c of None \<Rightarrow> False | Some n \<Rightarrow> n < base)"

definition digits_value :: "nat \<Rightarrow> string \<Rightarrow> nat" where
  "digits_value base s = foldl (\<lambda>acc c. acc * base + (case digit_of c of None \<Rightarrow> 0 | Some n \<Rightarrow> n)) 0 s"

definition radix_literal :: "nat \<Rightarrow> string \<Rightarrow> jsnum" where
  "radix_literal base s =
     (if s \<noteq> [] \<and> list_all (is_digit base) s then Fin (of_nat (digits_value base s)) else NaN)"

definition exponent_part :: "string \<Rightarrow> int option" where
  "exponent_part s =
     (case s of
        [] \<Rightarrow> Some 0
      | c # r \<Rightarrow>
          (if c = CHR ''e'' \<or> c = CHR ''E''
           then (case r of
                   [] \<Rightarrow> None
                 | g # r' \<Rightarrow>
                     (if g = CHR ''-''
                      then (if r' \<noteq> [] \<and> list_all (is_digit 10) r'
                            then Some (- int (digits_value 10 r')) else None)
                      else if g = CHR ''+''
                      then (if r' \<noteq> [] \<and> list_all (is_digit 10) r'
                            then Some (int (digits_value 10 r')) else None)
                      else (if list_all (is_digit 10) r
                            then Some (int (digits_value 10 r)) else None)))
           else None))"

definition scale10 :: "rat \<Rightarrow> int \<Rightarrow> rat" where
  "scale10 q e = (if 0 \<le> e then q * 10 ^ nat e else q / 10 ^ nat (- e))"

definition unsigned_decimal :: "string \<Rightarrow> rat option" where
  "unsigned_decimal s =
     (let ip = takeWhile (is_digit 10) s; r1 = dropWhile (is_digit 10) s;
          fp = (case r1 of [] \<Rightarrow> [] | c # r \<Rightarrow> if c = CHR ''.'' then takeWhile (is_digit 10) r else []);
          r2 = (case r1 of [] \<Rightarrow> [] | c # r \<Rightarrow> if c = CHR ''.'' then dropWhile (is_digit 10) r else r1)
      in if ip = [] \<and> fp = [] then None
         else (case exponent_part r2 of
                 None \<Rightarrow> None
               | Some e \<Rightarrow>
                   Some (scale10 (of_nat (digits_value 10 ip)
                                  + of_nat (digits_value 10 fp) / 10 ^ length fp) e)))"

definition signed_decimal :: "string \<Rightarrow> jsnum" where
  "signed_decimal s =
     (case s of
        [] \<Rightarrow> NaN
      | c # r \<Rightarrow>
          (if c = CHR ''-''
           then (if r = ''Infinity'' then NegInf
                 else (case unsigned_decimal r of None \<Rightarrow> NaN | Some q \<Rightarrow> Fin (- q)))
           else if c = CHR ''+''
           then (if r = ''Infinity'' then PosInf
                 else (case unsigned_decimal r of None \<Rightarrow> NaN | Some q \<Rightarrow> Fin q))
           else (if s = ''Infinity'' then PosInf
                 else (case unsigned_decimal s of None \<Rightarrow> NaN | Some q \<Rightarrow> Fin q))))"

definition Number :: "string \<Rightarrow> jsnum" where
  "Number v =
     (let s = trim v in
      if s = [] then Fin 0
      else if take 2 s = ''0x'' \<or> take 2 s = ''0X'' then radix_literal 16 (drop 2 s)
      else if take 2 s = ''0o'' \<or> take 2 s = ''0O'' then radix_literal 8 (drop 2 s)
      else if take 2 s = ''0b'' \<or> take 2 s = ''0B'' then radix_literal 2 (drop 2 s)
      else signed_decimal s)"

text \<open>
  \<^verbatim>\<open>validation.isNumber\<close> is \<^verbatim>\<open>!isNaN(Number(value))\<close>.
\<close>

definition isNaN :: "jsnum \<Rightarrow> bool" where
  "isNaN x = (x = NaN)"

definition isNumber :: "string \<Rightarrow> bool" where
  "isNumber v = (\<not> isNaN (Number v))"

text \<open>
  The \<^verbatim>\<open>attributes\<close> of \<^verbatim>\<open>autoTabBooster\<close>.
\<close>

definition autoTabBooster_attributes :: "(string \<times> attribute) list" where
  "autoTabBooster_attributes =
     [(''fb-tabs-pauseable'',
       \<lparr>defaultValue = JBool False, validate = Some (ByFunction isBoolean),
        parse = Some stringToBoolean\<rparr>),
      (''fb-tabs-progress'',
       \<lparr>defaultValue = JBool False, validate = Some (ByFunction isBoolean),
        parse = Some stringToBoolean\<rparr>),
      (''fb-tabs-speed'',
       \<lparr>defaultValue = JNum (Fin 5000), validate = Some (ByFunction isNumber),
        parse = Some (\<lambda>v. JNum (Number v))\<rparr>)]"

section \<open>Evaluation of single calls\<close>

lemmas host_defs =
  setTimeout_def clearTimeout_def requestAnimationFrame_def timeout_ms_def
  to_long_def init_host_def

lemmas timer_defs = fresh_def constructor_def truthy_def

text \<open>
  What \<^verbatim>\<open>pause()\<close> does when \<^verbatim>\<open>this.start\<close> is nonzero: the elapsed time goes
  off \<^verbatim>\<open>remaining\<close>, \<^verbatim>\<open>start\<close> and \<^verbatim>\<open>timerId\<close> are cleared and the pending
  handler is cancelled.
\<close>

lemma pause_started:
  "start t \<noteq> 0 \<Longrightarrow>
   pause (t, h) =
     (t\<lparr>remaining := remaining t - (now h - start t), start := 0, timerId := None\<rparr>,
      clearTimeout (timerId t) h)"
  by simp

lemma pause_not_started: "start t = 0 \<Longrightarrow> pause (t, h) = (t, h)"
  by simp

lemma resume_with_tick:
  "\<not> truthy (timerId t) \<Longrightarrow> tick t = Some k \<Longrightarrow>
   resume (t, h) =
     (t\<lparr>timerId := Some (nextId h), start := now h\<rparr>,
      h\<lparr>nextId := Suc (nextId h),
        timeouts := timeouts h @ [(nextId h, now h + timeout_ms (remaining t))],
        frames := frames h @ [Tick0, Animate None]\<rparr>)"
  by (simp add: setTimeout_def requestAnimationFrame_def)

lemma resume_without_tick:
  "\<not> truthy (timerId t) \<Longrightarrow> tick t = None \<Longrightarrow>
   resume (t, h) =
     (t\<lparr>timerId := Some (nextId h)\<rparr>,
      h\<lparr>nextId := Suc (nextId h),
        timeouts := timeouts h @ [(nextId h, now h + timeout_ms (remaining t))]\<rparr>)"
  by (simp add: setTimeout_def)

lemma resume_scheduled: "truthy (timerId t) \<Longrightarrow> resume (t, h) = (t, h)"
  by simp

section \<open>Timers constructed without a progress callback\<close>

text \<open>
  \<^verbatim>\<open>resume()\<close> assigns \<^verbatim>\<open>this.start = Date.now()\<close> inside
  \<^verbatim>\<open>if (this.tick)\<close>. A timer without a progress callback therefore keeps
  \<^verbatim>\<open>start = 0\<close> while its completion is pending, and the guard
  \<^verbatim>\<open>if (this.start)\<close> of \<^verbatim>\<open>pause()\<close> skips the whole body. The three
  evaluations below run a timer with \<^verbatim>\<open>delay = 5000\<close> and no third constructor
  argument on a host whose clock reads 1000000.
\<close>

text \<open>
  C1. A running timer that was constructed without a progress callback: 2000 ms
  after \<^verbatim>\<open>resume()\<close> the call \<^verbatim>\<open>pause()\<close> returns the state it was given.
  \<^verbatim>\<open>remaining\<close> is still 5000 (not 3000), \<^verbatim>\<open>timerId\<close> is still set and the
  completion is still pending for time 1005000.
\<close>

theorem pause_without_progress_callback_is_skipped:
  "pause (run [Resume, Advance 2000] (fresh 7 5000 None 1000000 999000 0))
     = run [Resume, Advance 2000] (fresh 7 5000 None 1000000 999000 0)
   \<and> remaining (fst (pause (run [Resume, Advance 2000] (fresh 7 5000 None 1000000 999000 0)))) = 5000
   \<and> timerId (fst (pause (run [Resume, Advance 2000] (fresh 7 5000 None 1000000 999000 0)))) = Some 1
   \<and> timeouts (snd (pause (run [Resume, Advance 2000] (fresh 7 5000 None 1000000 999000 0))))
       = [(1, 1005000)]"
  by (simp add: timer_defs host_defs)

text \<open>
  C2. \<^verbatim>\<open>resume()\<close> on a freshly constructed timer without a progress callback
  schedules the completion for \<open>now + remaining\<close>, but leaves \<^verbatim>\<open>start\<close> at 0
  although the clock reads 1000000: the start of the run is not recorded.
\<close>

theorem resume_without_progress_callback_records_no_start:
  "start (fst (resume (fresh 7 5000 None 1000000 999000 0))) = 0
   \<and> now (snd (resume (fresh 7 5000 None 1000000 999000 0))) = 1000000
   \<and> timeouts (snd (resume (fresh 7 5000 None 1000000 999000 0))) = [(1, 1005000)]"
  by (simp add: timer_defs host_defs)

text \<open>
  C3. The scenario of the specification on a timer without a progress callback:
  \<^verbatim>\<open>resume()\<close>, \<^verbatim>\<open>pause()\<close> 2000 ms later, \<^verbatim>\<open>resume()\<close> 500 ms after that.
  The completion callback runs 5000 ms after the first \<^verbatim>\<open>resume()\<close>
  (at 1005000), and nothing runs at 5500 ms.
\<close>

theorem pause_resume_without_progress_callback_fires_at_5000:
  "trace (snd (run [Resume, Advance 2000, Pause, Advance 500, Resume, Advance 2500, Timeout,
                    Advance 500, Timeout]
                 (fresh 7 5000 None 1000000 999000 0)))
     = [Completion 7 1005000]"
  by (simp add: timer_defs host_defs)

text \<open>
  For comparison, the same calls on a timer that was given a progress callback:
  the paused 500 ms are added and the completion callback runs at 5500 ms.
\<close>

lemma with_progress_callback_completion_at_5500:
  "trace (snd (run [Resume, Advance 2000, Pause, Advance 500, Resume, Advance 2500, Timeout,
                    Advance 500, Timeout]
                 (fresh 7 5000 (Some 8) 1000000 999000 0)))
     = [Completion 7 1005500]"
  by (simp add: timer_defs host_defs)

section \<open>The handle invariant\<close>

text \<open>
  A display refresh changes nothing but the pending frame callbacks and the
  trace.
\<close>

lemma call_tick_fields [simp]:
  "now (call_tick p w) = now (snd w)"
  "timeOrigin (call_tick p w) = timeOrigin (snd w)"
  "nextId (call_tick p w) = nextId (snd w)"
  "timeouts (call_tick p w) = timeouts (snd w)"
  "frames (call_tick p w) = frames (snd w)"
  by (simp_all add: call_tick_def split: option.splits)

lemma call_frame_cb_fields:
  "fst (call_frame_cb ts w f) = fst w"
  "now (snd (call_frame_cb ts w f)) = now (snd w)"
  "timeOrigin (snd (call_frame_cb ts w f)) = timeOrigin (snd w)"
  "nextId (snd (call_frame_cb ts w f)) = nextId (snd w)"
  "timeouts (snd (call_frame_cb ts w f)) = timeouts (snd w)"
  by (cases w; cases f; simp add: requestAnimationFrame_def split: option.splits)+

lemma foldl_frame_cb_fields:
  "fst (foldl (call_frame_cb ts) w fs) = fst w"
  "now (snd (foldl (call_frame_cb ts) w fs)) = now (snd w)"
  "timeOrigin (snd (foldl (call_frame_cb ts) w fs)) = timeOrigin (snd w)"
  "nextId (snd (foldl (call_frame_cb ts) w fs)) = nextId (snd w)"
  "timeouts (snd (foldl (call_frame_cb ts) w fs)) = timeouts (snd w)"
  by (induction fs arbitrary: w; simp add: call_frame_cb_fields)+

lemma frame_fields:
  "fst (frame w) = fst w"
  "now (snd (frame w)) = now (snd w)"
  "timeOrigin (snd (frame w)) = timeOrigin (snd w)"
  "nextId (snd (frame w)) = nextId (snd w)"
  "timeouts (snd (frame w)) = timeouts (snd w)"
  by (cases w; simp add: foldl_frame_cb_fields)+

lemma clearTimeout_fields [simp]:
  "now (clearTimeout i h) = now h"
  "timeOrigin (clearTimeout i h) = timeOrigin h"
  "nextId (clearTimeout i h) = nextId h"
  "frames (clearTimeout i h) = frames h"
  "trace (clearTimeout i h) = trace h"
  by (simp_all add: clearTimeout_def split: option.splits)

text \<open>
  Every method and every host step preserves the handle invariant, so it holds
  in every state a fresh timer can reach.
\<close>

lemma ok_fresh: "well_formed (fresh c d tk t0 origin n)"
  by (simp add: well_formed_def timer_defs init_host_def)

lemma ok_no_handle: "well_formed (t, h) \<Longrightarrow> \<not> truthy (timerId t) \<Longrightarrow> timeouts h = [] \<and> timerId t = None"
  by (cases "timeouts h"; cases "timerId t") (simp_all add: well_formed_def truthy_def)

lemma ok_clear_all:
  "well_formed (t, h) \<Longrightarrow> timeouts (clearTimeout (timerId t) h) = []"
  by (cases "timeouts h"; cases "timerId t") (simp_all add: well_formed_def clearTimeout_def)

lemma ok_resume:
  assumes "well_formed w"
  shows "well_formed (resume w)"
proof (cases w)
  case (Pair t h)
  show ?thesis
  proof (cases "truthy (timerId t)")
    case True
    with assms Pair show ?thesis by (simp only: resume_scheduled)
  next
    case False
    from assms Pair have ok: "well_formed (t, h)" by simp
    from ok_no_handle [OF ok False] ok have e: "timeouts h = []" "0 < nextId h"
      by (simp_all add: well_formed_def)
    show ?thesis
    proof (cases "tick t")
      case None
      show ?thesis
        unfolding Pair resume_without_tick [OF False None]
        using e by (simp add: well_formed_def)
    next
      case (Some k)
      show ?thesis
        unfolding Pair resume_with_tick [OF False Some]
        using e by (simp add: well_formed_def)
    qed
  qed
qed

lemma ok_clear:
  assumes "well_formed (t, h)"
  shows "well_formed (clear (t, h))"
  using ok_clear_all [OF assms] assms by (simp add: well_formed_def)

lemma ok_timer_update:
  "well_formed (t, h) \<Longrightarrow> timerId t' = timerId t \<Longrightarrow> well_formed (t', h)"
  by (simp add: well_formed_def)

lemma reset_eq:
  "reset (t, h) =
     (t\<lparr>timerId := None, remaining := delay t, start := 0\<rparr>, clearTimeout (timerId t) h)"
  by simp

lemma ok_reset:
  assumes "well_formed w"
  shows "well_formed (reset w)"
proof (cases w)
  case (Pair t h)
  with assms have ok: "well_formed (t, h)" by simp
  from ok_clear_all [OF ok] ok have "timeouts (clearTimeout (timerId t) h) = []" "0 < nextId h"
    by (simp_all add: well_formed_def)
  with Pair show ?thesis
    by (simp only: reset_eq) (simp add: well_formed_def)
qed

lemma ok_pause:
  assumes "well_formed w"
  shows "well_formed (pause w)"
proof (cases w)
  case (Pair t h)
  show ?thesis
  proof (cases "start t = 0")
    case True
    with assms Pair show ?thesis by simp
  next
    case False
    from assms Pair
    have "well_formed (t\<lparr>remaining := remaining t - (now h - start t), start := 0\<rparr>, h)"
      by (simp add: well_formed_def)
    then have "well_formed (clear (t\<lparr>remaining := remaining t - (now h - start t), start := 0\<rparr>, h))"
      by (rule ok_clear)
    with Pair False show ?thesis by simp
  qed
qed

lemma timeout_single:
  "timeouts h = [e] \<Longrightarrow>
   timeout (t, h) =
     (if snd e \<le> now h
      then (t, h\<lparr>timeouts := [], trace := trace h @ [Completion (cb t) (now h)]\<rparr>)
      else (t, h))"
  by simp

lemma timeout_none: "timeouts h = [] \<Longrightarrow> timeout (t, h) = (t, h)"
  by simp

lemma ok_timeout:
  assumes "well_formed w"
  shows "well_formed (timeout w)"
proof (cases w)
  case (Pair t h)
  show ?thesis
  proof (cases "timeouts h")
    case Nil
    with assms Pair show ?thesis by (simp only: timeout_none)
  next
    case (Cons e es)
    with assms Pair have es: "es = []" by (simp add: well_formed_def)
    from assms Pair have t: "0 < nextId h" "case timerId t of None \<Rightarrow> True | Some i \<Rightarrow> 0 < i"
      by (simp_all add: well_formed_def)
    have "well_formed (t, h\<lparr>timeouts := [], trace := trace h @ [Completion (cb t) (now h)]\<rparr>)"
      using t by (simp add: well_formed_def)
    with assms Pair Cons es show ?thesis
      by (simp only: timeout_single [OF Cons [unfolded es]] split: if_splits) simp
  qed
qed

lemma ok_frame: "well_formed w \<Longrightarrow> well_formed (frame w)"
  by (simp add: well_formed_def frame_fields)

lemma ok_advance: "well_formed w \<Longrightarrow> well_formed (advance dt w)"
  by (cases w) (simp add: well_formed_def)

lemma ok_step: "well_formed w \<Longrightarrow> well_formed (step x w)"
  by (cases x) (simp_all add: ok_resume ok_pause ok_reset ok_frame ok_timeout ok_advance)

lemma ok_run: "well_formed w \<Longrightarrow> well_formed (run xs w)"
  by (induction xs arbitrary: w) (simp_all add: ok_step)

lemma ok_reachable: "well_formed (run xs (fresh c d tk t0 origin n))"
  by (simp add: ok_run ok_fresh)

text \<open>
  The constructor arguments are never reassigned.
\<close>

lemma params_step:
  "cb (fst (step x w)) = cb (fst w) \<and> delay (fst (step x w)) = delay (fst w)
   \<and> tick (fst (step x w)) = tick (fst w)"
  by (cases w; cases x)
     (simp_all add: foldl_frame_cb_fields setTimeout_def split: prod.splits option.splits)

lemma params_run:
  "cb (fst (run xs w)) = cb (fst w) \<and> delay (fst (run xs w)) = delay (fst w)
   \<and> tick (fst (run xs w)) = tick (fst w)"
  by (induction xs arbitrary: w) (simp_all add: params_step)

lemma params_reachable:
  "cb (fst (run xs (fresh c d tk t0 origin n))) = c"
  "delay (fst (run xs (fresh c d tk t0 origin n))) = d"
  "tick (fst (run xs (fresh c d tk t0 origin n))) = tk"
  by (simp_all add: params_run) (simp_all add: timer_defs)

section \<open>One pending completion\<close>

text \<open>
  After \<^verbatim>\<open>resume()\<close> the handle is truthy, and no step other than
  \<^verbatim>\<open>pause()\<close> and \<^verbatim>\<open>reset()\<close> changes the timer or calls
  \<^verbatim>\<open>setTimeout\<close> while it is.
\<close>

lemma resume_sets_handle:
  assumes "well_formed w"
  shows "truthy (timerId (fst (resume w)))"
proof (cases w)
  case (Pair t h)
  from assms Pair have "0 < nextId h" by (simp add: well_formed_def)
  with Pair show ?thesis
    by (cases "truthy (timerId t)") (simp_all add: setTimeout_def truthy_def)
qed

lemma handle_kept_step:
  assumes "truthy (timerId (fst w))" "x \<noteq> Pause" "x \<noteq> Reset"
  shows "fst (step x w) = fst w \<and> nextId (snd (step x w)) = nextId (snd w)"
proof (cases w)
  case (Pair t h)
  with assms show ?thesis
    by (cases x) (simp_all add: foldl_frame_cb_fields split: option.splits)
qed

lemma handle_kept_run:
  "truthy (timerId (fst w)) \<Longrightarrow> Pause \<notin> set xs \<Longrightarrow> Reset \<notin> set xs \<Longrightarrow>
   fst (run xs w) = fst w \<and> nextId (snd (run xs w)) = nextId (snd w)"
proof (induction xs arbitrary: w)
  case Nil
  then show ?case by simp
next
  case (Cons x xs)
  from Cons.prems have x: "x \<noteq> Pause" "x \<noteq> Reset" by auto
  from handle_kept_step [OF Cons.prems(1) x]
  have s: "fst (step x w) = fst w" "nextId (snd (step x w)) = nextId (snd w)" by simp_all
  from Cons.prems s have "truthy (timerId (fst (step x w)))" by simp
  from Cons.IH [OF this] Cons.prems s show ?case by simp
qed

lemma resume_noop: "truthy (timerId (fst w)) \<Longrightarrow> resume w = w"
  by (cases w) simp

text \<open>
  C5. In every state reachable from a freshly constructed timer at most one
  completion is pending. After a \<^verbatim>\<open>resume()\<close>, any steps \<open>ys\<close> without
  \<^verbatim>\<open>pause()\<close> and \<^verbatim>\<open>reset()\<close> (further \<^verbatim>\<open>resume()\<close> calls, time,
  refreshes, the fire itself) followed by another \<^verbatim>\<open>resume()\<close> leave the state
  as it is and hand out no new timeout handle: nothing is scheduled twice.
\<close>

theorem single_pending_completion:
  assumes "Pause \<notin> set ys" and "Reset \<notin> set ys"
  shows "length (timeouts (snd (run xs (fresh c d tk t0 origin n)))) \<le> 1
    \<and> resume (run ys (resume (run xs (fresh c d tk t0 origin n))))
        = run ys (resume (run xs (fresh c d tk t0 origin n)))
    \<and> nextId (snd (run ys (resume (run xs (fresh c d tk t0 origin n)))))
        = nextId (snd (resume (run xs (fresh c d tk t0 origin n))))"
proof -
  let ?w = "run xs (fresh c d tk t0 origin n)"
  have ok: "well_formed ?w" by (rule ok_reachable)
  then have one: "length (timeouts (snd ?w)) \<le> 1" by (simp add: well_formed_def)
  have h: "truthy (timerId (fst (resume ?w)))" using ok by (rule resume_sets_handle)
  from handle_kept_run [OF h assms]
  have k: "fst (run ys (resume ?w)) = fst (resume ?w)"
    "nextId (snd (run ys (resume ?w))) = nextId (snd (resume ?w))" by simp_all
  from k(1) h have "truthy (timerId (fst (run ys (resume ?w))))" by simp
  then have "resume (run ys (resume ?w)) = run ys (resume ?w)" by (rule resume_noop)
  with one k(2) show ?thesis by simp
qed

text \<open>
  The statement above on a run with a pause, a second \<^verbatim>\<open>resume()\<close> and the
  fire: two handles were handed out in all, the next one is 3.
\<close>

theorem single_pending_completion_witness:
  "Pause \<notin> set [Advance 100, Frame, Resume, Advance 5000, Timeout]
   \<and> Reset \<notin> set [Advance 100, Frame, Resume, Advance 5000, Timeout]
   \<and> length (timeouts (snd (run [Resume, Advance 2000, Pause, Advance 500]
              (fresh 7 5000 (Some 8) 1000000 999000 0)))) \<le> 1
   \<and> resume (run [Advance 100, Frame, Resume, Advance 5000, Timeout]
        (resume (run [Resume, Advance 2000, Pause, Advance 500]
              (fresh 7 5000 (Some 8) 1000000 999000 0))))
      = run [Advance 100, Frame, Resume, Advance 5000, Timeout]
        (resume (run [Resume, Advance 2000, Pause, Advance 500]
              (fresh 7 5000 (Some 8) 1000000 999000 0)))
   \<and> nextId (snd (run [Advance 100, Frame, Resume, Advance 5000, Timeout]
        (resume (run [Resume, Advance 2000, Pause, Advance 500]
              (fresh 7 5000 (Some 8) 1000000 999000 0))))) = 3"
  using single_pending_completion
    [of "[Advance 100, Frame, Resume, Advance 5000, Timeout]"
        "[Resume, Advance 2000, Pause, Advance 500]" 7 5000 "Some 8" 1000000 999000 0]
  by (simp add: timer_defs host_defs)

section \<open>The handle after the completion has fired\<close>

lemma timeout_fires:
  assumes "well_formed w" "due w"
  shows "timeout w =
     (fst w, (snd w)\<lparr>timeouts := [],
        trace := trace (snd w) @ [Completion (cb (fst w)) (now (snd w))]\<rparr>)
     \<and> truthy (timerId (fst w))"
proof (cases w)
  case (Pair t h)
  show ?thesis
  proof (cases "timeouts h")
    case Nil
    with assms Pair show ?thesis by (simp add: due_def)
  next
    case (Cons e es)
    with assms Pair have es: "es = []" by (simp add: well_formed_def)
    from assms Pair Cons es have d: "snd e \<le> now h" by (simp add: due_def)
    from assms Pair Cons es have "truthy (timerId t)"
      by (auto simp: well_formed_def truthy_def split: option.splits)
    with Pair Cons es d show ?thesis by simp
  qed
qed

lemma resume_after_clear:
  assumes "timerId t = None" "timeouts h = []"
  shows "timeouts (snd (resume (t, h))) = [(nextId h, now h + timeout_ms (remaining t))]"
  using assms by (cases "tick t") (simp_all add: truthy_def setTimeout_def requestAnimationFrame_def)

text \<open>
  C10. Let the host run the due completion handler of a reachable state
  \<open>w0\<close>, giving \<open>w\<close>. The callback was invoked, and the fire left
  \<^verbatim>\<open>timerId\<close> as it was: set, with nothing pending. From then on
  \<^verbatim>\<open>resume()\<close> is the identity and no handle is handed out, whatever steps
  other than \<^verbatim>\<open>pause()\<close> and \<^verbatim>\<open>reset()\<close> come before it. \<^verbatim>\<open>pause()\<close>
  with \<^verbatim>\<open>start = 0\<close> changes nothing either; \<^verbatim>\<open>pause()\<close> with a nonzero
  \<^verbatim>\<open>start\<close>, and \<^verbatim>\<open>reset()\<close>, clear the handle, after which \<^verbatim>\<open>resume()\<close>
  schedules a completion again.
\<close>

theorem stale_handle_after_fire:
  assumes "w0 = run xs (fresh c d tk t0 origin n)" and "due w0" and "w = timeout w0"
    and "Pause \<notin> set ys" and "Reset \<notin> set ys"
  shows "trace (snd w) = trace (snd w0) @ [Completion c (now (snd w0))]
    \<and> timerId (fst w) = timerId (fst w0) \<and> truthy (timerId (fst w))
    \<and> timeouts (snd w) = []
    \<and> resume (run ys w) = run ys w
    \<and> nextId (snd (run ys w)) = nextId (snd w)
    \<and> (if start (fst w) = 0 then pause w = w
        else timeouts (snd (resume (pause w)))
               = [(nextId (snd w),
                   now (snd w) + timeout_ms (remaining (fst w) - (now (snd w) - start (fst w))))])
    \<and> timeouts (snd (resume (reset w))) = [(nextId (snd w), now (snd w) + timeout_ms d)]"
proof -
  have ok0: "well_formed w0" unfolding assms(1) by (rule ok_reachable)
  have c: "cb (fst w0) = c" "delay (fst w0) = d" unfolding assms(1) by (rule params_reachable)+
  from timeout_fires [OF ok0 assms(2)] assms(3) c
  have w: "w = (fst w0, (snd w0)\<lparr>timeouts := [],
        trace := trace (snd w0) @ [Completion c (now (snd w0))]\<rparr>)"
    and h: "truthy (timerId (fst w0))" by simp_all
  obtain t h where th: "w = (t, h)" by (cases w)
  from w th have t: "t = fst w0" and hh: "timeouts h = []" "trace h = trace (snd w0) @ [Completion c (now (snd w0))]"
    by simp_all
  from h t th have h': "truthy (timerId (fst w))" by simp
  from handle_kept_run [OF h' assms(4,5)]
  have k: "fst (run ys w) = fst w" "nextId (snd (run ys w)) = nextId (snd w)" by simp_all
  from k(1) h' have "truthy (timerId (fst (run ys w)))" by simp
  then have r: "resume (run ys w) = run ys w" by (rule resume_noop)
  have p: "if start (fst w) = 0 then pause w = w
        else timeouts (snd (resume (pause w)))
               = [(nextId (snd w),
                   now (snd w) + timeout_ms (remaining (fst w) - (now (snd w) - start (fst w))))]"
  proof (cases "start t = 0")
    case True
    with th show ?thesis by simp
  next
    case False
    let ?t = "t\<lparr>remaining := remaining t - (now h - start t), start := 0, timerId := None\<rparr>"
    let ?h = "clearTimeout (timerId t) h"
    have e: "timeouts ?h = []"
      using hh by (simp add: clearTimeout_def split: option.splits)
    have "timeouts (snd (resume (?t, ?h))) = [(nextId ?h, now ?h + timeout_ms (remaining ?t))]"
      by (rule resume_after_clear) (simp_all add: e)
    then have "timeouts (snd (resume (pause (t, h))))
        = [(nextId h, now h + timeout_ms (remaining t - (now h - start t)))]"
      by (simp only: pause_started [OF False]) simp
    with False th show ?thesis by simp
  qed
  have rs: "timeouts (snd (resume (reset w))) = [(nextId (snd w), now (snd w) + timeout_ms d)]"
  proof -
    let ?t = "t\<lparr>timerId := None, remaining := delay t, start := 0\<rparr>"
    let ?h = "clearTimeout (timerId t) h"
    have e: "timeouts ?h = []"
      using hh by (simp add: clearTimeout_def split: option.splits)
    have "timeouts (snd (resume (?t, ?h))) = [(nextId ?h, now ?h + timeout_ms (remaining ?t))]"
      by (rule resume_after_clear) (simp_all add: e)
    then have "timeouts (snd (resume (reset (t, h)))) = [(nextId h, now h + timeout_ms (delay t))]"
      by (simp only: reset_eq) simp
    with th t c show ?thesis by simp
  qed
  from th t hh h r k p rs show ?thesis by simp
qed

text \<open>
  The statement above on a timer with \<^verbatim>\<open>delay = 5000\<close> whose completion
  fired at 1005000.
\<close>

theorem stale_handle_after_fire_witness:
  "due (run [Resume, Advance 5000] (fresh 7 5000 (Some 8) 1000000 999000 0))
   \<and> Pause \<notin> set [Advance 100, Resume, Frame, Timeout, Resume]
   \<and> Reset \<notin> set [Advance 100, Resume, Frame, Timeout, Resume]
   \<and> trace (snd (timeout (run [Resume, Advance 5000] (fresh 7 5000 (Some 8) 1000000 999000 0))))
        = [Completion 7 1005000]
   \<and> timerId (fst (timeout (run [Resume, Advance 5000] (fresh 7 5000 (Some 8) 1000000 999000 0))))
        = Some 1
   \<and> resume (run [Advance 100, Resume, Frame, Timeout, Resume]
         (timeout (run [Resume, Advance 5000] (fresh 7 5000 (Some 8) 1000000 999000 0))))
      = run [Advance 100, Resume, Frame, Timeout, Resume]
         (timeout (run [Resume, Advance 5000] (fresh 7 5000 (Some 8) 1000000 999000 0)))
   \<and> nextId (snd (run [Advance 100, Resume, Frame, Timeout, Resume]
         (timeout (run [Resume, Advance 5000] (fresh 7 5000 (Some 8) 1000000 999000 0))))) = 2
   \<and> timeouts (snd (resume (pause
         (timeout (run [Resume, Advance 5000] (fresh 7 5000 (Some 8) 1000000 999000 0))))))
        = [(2, 1005000)]
   \<and> timeouts (snd (resume (reset
         (timeout (run [Resume, Advance 5000] (fresh 7 5000 (Some 8) 1000000 999000 0))))))
        = [(2, 1010000)]"
proof -
  have d: "due (run [Resume, Advance 5000] (fresh 7 5000 (Some 8) 1000000 999000 0))"
    by (simp add: due_def timer_defs host_defs)
  have p: "Pause \<notin> set [Advance 100, Resume, Frame, Timeout, Resume]"
    "Reset \<notin> set [Advance 100, Resume, Frame, Timeout, Resume]" by simp_all
  from stale_handle_after_fire [OF refl d refl p] d
  show ?thesis by (simp add: timer_defs host_defs)
qed

section \<open>The range of remaining\<close>

lemma not_ahead_step:
  assumes "not_ahead w"
  shows "not_ahead (step x w)"
proof (cases w)
  case (Pair t h)
  with assms show ?thesis
    by (cases x)
       (auto simp: not_ahead_def foldl_frame_cb_fields setTimeout_def requestAnimationFrame_def
             split: option.splits)
qed

lemma not_ahead_run: "not_ahead w \<Longrightarrow> not_ahead (run xs w)"
  by (induction xs arbitrary: w) (simp_all add: not_ahead_step)

lemma not_ahead_fresh: "not_ahead (fresh c d tk t0 origin n)"
  by (simp add: not_ahead_def timer_defs)

lemma remaining_step:
  assumes "0 \<le> delay (fst w)" "0 \<le> remaining (fst w)" "timely [x] w"
  shows "0 \<le> remaining (fst (step x w))"
proof (cases w)
  case (Pair t h)
  with assms show ?thesis
    by (cases x)
       (auto simp: foldl_frame_cb_fields setTimeout_def requestAnimationFrame_def
             split: option.splits if_splits)
qed

lemma remaining_run:
  "0 \<le> delay (fst w) \<Longrightarrow> 0 \<le> remaining (fst w) \<Longrightarrow> timely xs w \<Longrightarrow>
   0 \<le> remaining (fst (run xs w))"
proof (induction xs arbitrary: w)
  case Nil
  then show ?case by simp
next
  case (Cons x xs)
  from Cons.prems have "timely [x] w" by simp
  from remaining_step [OF Cons.prems(1,2) this] have r: "0 \<le> remaining (fst (step x w))" .
  from Cons.prems(1) have d: "0 \<le> delay (fst (step x w))" by (simp add: params_step)
  from Cons.prems(3) have "timely xs (step x w)" by simp
  from Cons.IH [OF d r this] show ?case by simp
qed

text \<open>
  C4, as stated, fails: with \<^verbatim>\<open>delay = 1000\<close> and a progress callback, a
  \<^verbatim>\<open>pause()\<close> 1500 ms after \<^verbatim>\<open>resume()\<close> leaves \<^verbatim>\<open>remaining\<close> negative
  (\<open>-500\<close>).
\<close>

theorem remaining_negative_after_late_pause:
  "\<not> (0 \<le> remaining (fst (run [Resume, Advance 1500, Pause] (fresh 7 1000 (Some 8) 1000000 999000 0))))"
  by (simp add: timer_defs host_defs)

text \<open>
  C4, amended. In every state reachable from a freshly constructed timer
  \<^verbatim>\<open>remaining\<close> is at most \<^verbatim>\<open>delay\<close>. It is not negative when
  \<^verbatim>\<open>delay\<close> is not and every \<^verbatim>\<open>pause()\<close> that finds a recorded start is
  issued no later than the nominal fire time.
\<close>

theorem remaining_bounds:
  "remaining (fst (run xs (fresh c d tk t0 origin n))) \<le> d
   \<and> (0 \<le> d \<and> timely xs (fresh c d tk t0 origin n)
        \<longrightarrow> 0 \<le> remaining (fst (run xs (fresh c d tk t0 origin n))))"
proof -
  have "not_ahead (run xs (fresh c d tk t0 origin n))"
    by (rule not_ahead_run) (rule not_ahead_fresh)
  then have u: "remaining (fst (run xs (fresh c d tk t0 origin n))) \<le> d"
    by (simp add: not_ahead_def params_reachable)
  have "0 \<le> remaining (fst (run xs (fresh c d tk t0 origin n)))"
    if "0 \<le> d" "timely xs (fresh c d tk t0 origin n)"
    by (rule remaining_run) (use that in \<open>simp_all add: timer_defs\<close>)
  with u show ?thesis by blast
qed

text \<open>
  The statement above on the pause and resume scenario followed by a pause at
  the nominal fire time, where \<^verbatim>\<open>remaining\<close> reaches exactly 0.
\<close>

theorem remaining_bounds_witness:
  "(0::int) \<le> 5000
   \<and> timely [Resume, Advance 2000, Pause, Advance 500, Resume, Advance 3000, Pause, Reset]
        (fresh 7 5000 (Some 8) 1000000 999000 0)
   \<and> remaining (fst (run [Resume, Advance 2000, Pause, Advance 500, Resume, Advance 3000, Pause]
        (fresh 7 5000 (Some 8) 1000000 999000 0))) = 0
   \<and> 0 \<le> remaining (fst (run [Resume, Advance 2000, Pause, Advance 500, Resume, Advance 3000, Pause, Reset]
        (fresh 7 5000 (Some 8) 1000000 999000 0)))
   \<and> remaining (fst (run [Resume, Advance 2000, Pause, Advance 500, Resume, Advance 3000, Pause, Reset]
        (fresh 7 5000 (Some 8) 1000000 999000 0))) \<le> 5000"
proof -
  have t: "timely [Resume, Advance 2000, Pause, Advance 500, Resume, Advance 3000, Pause, Reset]
        (fresh 7 5000 (Some 8) 1000000 999000 0)"
    by (simp add: timer_defs host_defs)
  have r: "remaining (fst (run [Resume, Advance 2000, Pause, Advance 500, Resume, Advance 3000, Pause]
        (fresh 7 5000 (Some 8) 1000000 999000 0))) = 0"
    by (simp add: timer_defs host_defs)
  from remaining_bounds
    [of "[Resume, Advance 2000, Pause, Advance 500, Resume, Advance 3000, Pause, Reset]"
        7 5000 "Some 8" 1000000 999000 0] t r
  show ?thesis by simp
qed

section \<open>reset() against a fresh timer\<close>

lemma completions_simps [simp]:
  "completions [] = []"
  "completions (es @ es') = completions es @ completions es'"
  "completions (e # es) = (if is_completion e then e # completions es else completions es)"
  by (simp_all add: completions_def)

lemma call_frame_cb_completions:
  "completions (trace (snd (call_frame_cb ts w f))) = completions (trace (snd w))"
  by (cases w; cases f)
     (simp_all add: requestAnimationFrame_def call_tick_def split: option.splits)

lemma foldl_frame_cb_completions:
  "completions (trace (snd (foldl (call_frame_cb ts) w fs))) = completions (trace (snd w))"
  by (induction fs arbitrary: w) (simp_all add: call_frame_cb_completions)

lemma frame_completions: "completions (trace (snd (frame w))) = completions (trace (snd w))"
  by (cases w) (simp add: foldl_frame_cb_completions)

lemma call_frame_cb_same:
  assumes "same_frames w w'"
  shows "same_frames (call_frame_cb ts w f) (call_frame_cb ts w' f)"
proof (cases w; cases w')
  fix t h t' h'
  assume "w = (t, h)" "w' = (t', h')"
  with assms show ?thesis
    by (cases f)
       (simp_all add: same_frames_def requestAnimationFrame_def call_tick_def split: option.splits)
qed

lemma foldl_frame_cb_same:
  "same_frames w w' \<Longrightarrow>
   same_frames (foldl (call_frame_cb ts) w fs) (foldl (call_frame_cb ts) w' fs)"
  by (induction fs arbitrary: w w') (simp_all add: call_frame_cb_same)

lemma frame_same:
  assumes "same_frames w w'"
  shows "same_frames (frame w) (frame w')"
proof (cases w; cases w')
  fix t h t' h'
  assume w: "w = (t, h)" "w' = (t', h')"
  with assms have "same_frames (t, h\<lparr>frames := []\<rparr>) (t', h'\<lparr>frames := []\<rparr>)"
    by (simp add: same_frames_def)
  then have "same_frames (foldl (call_frame_cb (now h - timeOrigin h)) (t, h\<lparr>frames := []\<rparr>) (frames h))
      (foldl (call_frame_cb (now h - timeOrigin h)) (t', h'\<lparr>frames := []\<rparr>) (frames h))"
    by (rule foldl_frame_cb_same)
  with assms w show ?thesis by (simp add: same_frames_def)
qed

text \<open>
  Each step takes states that agree to states that agree.
\<close>

lemma same_timing_resume:
  assumes ok: "well_formed w" "well_formed w'" and st: "same_timing w w'"
  shows "same_timing (resume w) (resume w')"
    and "same_frames w w' \<Longrightarrow> same_frames (resume w) (resume w')"
proof -
  obtain t h t' h' where w: "w = (t, h)" "w' = (t', h')" by (cases w; cases w') 
  have "same_timing (resume w) (resume w')
        \<and> (same_frames w w' \<longrightarrow> same_frames (resume w) (resume w'))"
  proof (cases "truthy (timerId t)")
    case True
    with st w have "truthy (timerId t')" by (simp add: same_timing_def)
    with True st w show ?thesis by (simp only: resume_scheduled) simp
  next
    case False
    with st w have False': "\<not> truthy (timerId t')" by (simp add: same_timing_def)
    from ok w have n: "0 < nextId h" "0 < nextId h'" by (simp_all add: well_formed_def)
    from ok_no_handle [of t h] ok_no_handle [of t' h'] ok w False False'
    have e: "timeouts h = []" "timeouts h' = []" by simp_all
    show ?thesis
    proof (cases "tick t")
      case None
      with st w have None': "tick t' = None" by (simp add: same_timing_def)
      show ?thesis
        unfolding w resume_without_tick [OF False None] resume_without_tick [OF False' None']
        using st w n e by (simp add: same_timing_def same_frames_def truthy_def)
    next
      case (Some k)
      with st w have Some': "tick t' = Some k" by (simp add: same_timing_def)
      show ?thesis
        unfolding w resume_with_tick [OF False Some] resume_with_tick [OF False' Some']
        using st w n e by (simp add: same_timing_def same_frames_def truthy_def)
    qed
  qed
  then show "same_timing (resume w) (resume w')"
    and "same_frames w w' \<Longrightarrow> same_frames (resume w) (resume w')" by simp_all
qed

lemma same_timing_pause:
  assumes ok: "well_formed w" "well_formed w'" and st: "same_timing w w'"
  shows "same_timing (pause w) (pause w')"
    and "same_frames w w' \<Longrightarrow> same_frames (pause w) (pause w')"
proof -
  obtain t h t' h' where w: "w = (t, h)" "w' = (t', h')" by (cases w; cases w') 
  from st w have s: "start t' = start t" by (simp add: same_timing_def)
  have "same_timing (pause w) (pause w')
        \<and> (same_frames w w' \<longrightarrow> same_frames (pause w) (pause w'))"
  proof (cases "start t = 0")
    case True
    with s have "start t' = 0" by simp
    with True st w show ?thesis by (simp only: pause_not_started) simp
  next
    case False
    with s have False': "start t' \<noteq> 0" by simp
    from ok w have e: "timeouts (clearTimeout (timerId t) h) = []"
      "timeouts (clearTimeout (timerId t') h') = []"
      by (simp_all add: ok_clear_all)
    show ?thesis
      unfolding w pause_started [OF False] pause_started [OF False']
      using st w e by (simp add: same_timing_def same_frames_def truthy_def)
  qed
  then show "same_timing (pause w) (pause w')"
    and "same_frames w w' \<Longrightarrow> same_frames (pause w) (pause w')" by simp_all
qed

lemma same_timing_reset:
  assumes ok: "well_formed w" "well_formed w'" and st: "same_timing w w'"
  shows "same_timing (reset w) (reset w')"
    and "same_frames w w' \<Longrightarrow> same_frames (reset w) (reset w')"
proof -
  obtain t h t' h' where w: "w = (t, h)" "w' = (t', h')" by (cases w; cases w') 
  from ok w have e: "timeouts (clearTimeout (timerId t) h) = []"
    "timeouts (clearTimeout (timerId t') h') = []"
    by (simp_all add: ok_clear_all)
  have "same_timing (reset w) (reset w')
        \<and> (same_frames w w' \<longrightarrow> same_frames (reset w) (reset w'))"
    unfolding w reset_eq
    using st w e by (simp add: same_timing_def same_frames_def truthy_def)
  then show "same_timing (reset w) (reset w')"
    and "same_frames w w' \<Longrightarrow> same_frames (reset w) (reset w')" by simp_all
qed

lemma same_timing_timeout:
  assumes ok: "well_formed w" "well_formed w'" and st: "same_timing w w'"
  shows "same_timing (timeout w) (timeout w')"
    and "same_frames w w' \<Longrightarrow> same_frames (timeout w) (timeout w')"
proof -
  obtain t h t' h' where w: "w = (t, h)" "w' = (t', h')" by (cases w; cases w') 
  from st w have m: "map snd (timeouts h) = map snd (timeouts h')" and n: "now h' = now h"
    and c: "cb t' = cb t"
    by (simp_all add: same_timing_def)
  have "same_timing (timeout w) (timeout w')
        \<and> (same_frames w w' \<longrightarrow> same_frames (timeout w) (timeout w'))"
  proof (cases "timeouts h")
    case Nil
    with m have Nil': "timeouts h' = []" by simp
    from st w show ?thesis by (simp only: timeout_none [OF Nil] timeout_none [OF Nil']) simp
  next
    case (Cons e es)
    with ok w have "es = []" by (simp add: well_formed_def)
    with Cons have one: "timeouts h = [e]" by simp
    from m one obtain e' where one': "timeouts h' = [e']" and d: "snd e' = snd e"
      by (cases "timeouts h'") auto
    show ?thesis
      unfolding w timeout_single [OF one] timeout_single [OF one']
      using st w d n c by (simp add: same_timing_def same_frames_def)
  qed
  then show "same_timing (timeout w) (timeout w')"
    and "same_frames w w' \<Longrightarrow> same_frames (timeout w) (timeout w')" by simp_all
qed

lemma same_timing_frame:
  assumes "same_timing w w'"
  shows "same_timing (frame w) (frame w')"
  using assms by (simp add: same_timing_def frame_fields frame_completions)

lemma same_timing_advance:
  assumes "same_timing w w'"
  shows "same_timing (advance dt w) (advance dt w')"
    and "same_frames w w' \<Longrightarrow> same_frames (advance dt w) (advance dt w')"
  using assms by (cases w; cases w'; simp add: same_timing_def same_frames_def)+

lemma same_timing_step:
  assumes "well_formed w" "well_formed w'" "same_timing w w'"
  shows "same_timing (step x w) (step x w')"
    and "same_frames w w' \<Longrightarrow> same_frames (step x w) (step x w')"
  using assms
  by (cases x;
      simp add: same_timing_resume same_timing_pause same_timing_reset same_timing_timeout
        same_timing_frame same_timing_advance frame_same)+

lemma same_timing_run:
  "well_formed w \<Longrightarrow> well_formed w' \<Longrightarrow> same_timing w w' \<Longrightarrow>
   same_timing (run xs w) (run xs w')
   \<and> (same_frames w w' \<longrightarrow> same_frames (run xs w) (run xs w'))"
proof (induction xs arbitrary: w w')
  case Nil
  then show ?case by simp
next
  case (Cons x xs)
  from Cons.prems have ok: "well_formed (step x w)" "well_formed (step x w')"
    by (simp_all add: ok_step)
  from same_timing_step [OF Cons.prems]
  have st: "same_timing (step x w) (step x w')"
    and sf: "same_frames w w' \<Longrightarrow> same_frames (step x w) (step x w')" by simp_all
  from Cons.IH [OF ok st] sf show ?case by auto
qed

lemma origin_step: "timeOrigin (snd (step x w)) = timeOrigin (snd w)"
  by (cases w; cases x)
     (simp_all add: foldl_frame_cb_fields setTimeout_def requestAnimationFrame_def
        split: option.splits)

lemma origin_run: "timeOrigin (snd (run xs w)) = timeOrigin (snd w)"
  by (induction xs arbitrary: w) (simp_all add: origin_step)

lemma no_tick_step:
  assumes "tick (fst w) = None" "frames (snd w) = []"
  shows "tick (fst (step x w)) = None \<and> frames (snd (step x w)) = []"
  using assms
  by (cases w; cases x)
     (simp_all add: setTimeout_def split: option.splits)

lemma no_tick_run:
  "tick (fst w) = None \<Longrightarrow> frames (snd w) = [] \<Longrightarrow> frames (snd (run xs w)) = []"
proof (induction xs arbitrary: w)
  case Nil
  then show ?case by simp
next
  case (Cons x xs)
  from no_tick_step [OF Cons.prems, of x] Cons.IH [of "step x w"] show ?case by simp
qed

lemma no_tick_reachable: "frames (snd (run xs (fresh c d None t0 origin n))) = []"
  by (rule no_tick_run) (simp_all add: timer_defs init_host_def)

lemma ok_without_trace: "well_formed w \<Longrightarrow> well_formed (fst w, (snd w)\<lparr>trace := es\<rparr>)"
  by (simp add: well_formed_def)

lemma reset_reachable:
  assumes "w = run xs (fresh c d tk t0 origin n)"
  shows "fst (reset w) = constructor c d tk" and "timeouts (snd (reset w)) = []"
    and "now (snd (reset w)) = now (snd w)" and "timeOrigin (snd (reset w)) = origin"
    and "frames (snd (reset w)) = frames (snd w)"
proof -
  obtain t h where w: "w = (t, h)" by (cases w)
  have "well_formed w" unfolding assms by (rule ok_reachable)
  then have ok: "well_formed (t, h)" by (simp only: w)
  have "cb (fst w) = c" "delay (fst w) = d" "tick (fst w) = tk"
    unfolding assms by (rule params_reachable)+
  then have p: "cb t = c" "delay t = d" "tick t = tk" by (simp_all add: w)
  have "timeOrigin (snd w) = origin"
    unfolding assms by (simp add: origin_run) (simp add: timer_defs init_host_def)
  then have o: "timeOrigin h = origin" by (simp add: w)
  show "fst (reset w) = constructor c d tk"
    unfolding w reset_eq using p by (cases t) (simp add: constructor_def)
  show "timeouts (snd (reset w)) = []"
    unfolding w reset_eq using ok_clear_all [OF ok] by simp
  show "now (snd (reset w)) = now (snd w)" unfolding w reset_eq by simp
  show "timeOrigin (snd (reset w)) = origin" unfolding w reset_eq using o by simp
  show "frames (snd (reset w)) = frames (snd w)" unfolding w reset_eq by simp
qed

text \<open>
  C8, as stated, fails: a timer that is reset 416 ms into a run with a progress
  callback reports 40 percent at the next refresh; a freshly constructed timer
  at the same time reports nothing.
\<close>

theorem reset_leaves_progress_loop:
  "observe [Frame] (reset (run [Resume, Advance 16, Frame, Advance 400]
      (fresh 7 1000 (Some 8) 1000000 999000 0))) = [Progress 8 (Fin 40) 1000416]
   \<and> observe [Frame] (fresh 7 1000 (Some 8) 1000416 999000 1) = []
   \<and> observe [Frame] (reset (run [Resume, Advance 16, Frame, Advance 400]
      (fresh 7 1000 (Some 8) 1000000 999000 0)))
     \<noteq> observe [Frame] (fresh 7 1000 (Some 8) 1000416 999000 1)"
  by (simp add: observe_def timer_defs host_defs call_tick_def loop_start_def js_div_def)

text \<open>
  C8, amended. After \<^verbatim>\<open>reset()\<close> in a reachable state the timer's fields are
  those the constructor sets and no completion is pending. Under any further
  steps \<open>ys\<close> the completion callback is invoked at the same times as for a
  fresh timer with the same arguments at the same clock reading, and when the
  timer has no progress callback or no frame callback is pending the whole
  trace is the same.
\<close>

theorem reset_like_fresh:
  "fst (reset (run xs (fresh c d tk t0 origin n))) = constructor c d tk
   \<and> timeouts (snd (reset (run xs (fresh c d tk t0 origin n)))) = []
   \<and> completions (observe ys (reset (run xs (fresh c d tk t0 origin n))))
       = completions (observe ys
           (fresh c d tk (now (snd (run xs (fresh c d tk t0 origin n)))) origin m))
   \<and> (tk = None \<or> frames (snd (run xs (fresh c d tk t0 origin n))) = []
        \<longrightarrow> observe ys (reset (run xs (fresh c d tk t0 origin n)))
             = observe ys (fresh c d tk (now (snd (run xs (fresh c d tk t0 origin n)))) origin m))"
proof -
  let ?w = "run xs (fresh c d tk t0 origin n)"
  let ?r = "(fst (reset ?w), (snd (reset ?w))\<lparr>trace := []\<rparr>)"
  let ?f = "fresh c d tk (now (snd ?w)) origin m"
  let ?g = "(fst ?f, (snd ?f)\<lparr>trace := []\<rparr>)"
  note r = reset_reachable [OF refl, of xs c d tk t0 origin n]
  have "well_formed (reset ?w)" by (intro ok_reset ok_reachable)
  then have ok: "well_formed ?r" by (simp add: well_formed_def)
  have "well_formed ?f" by (rule ok_fresh)
  then have ok': "well_formed ?g" by (simp add: well_formed_def)
  have st: "same_timing ?r ?g"
    using r by (simp add: same_timing_def) (simp add: timer_defs init_host_def)
  have sf: "same_frames ?r ?g" if "frames (snd ?w) = []"
    using r that by (simp add: same_frames_def) (simp add: timer_defs init_host_def)
  from same_timing_run [OF ok ok' st, of ys]
  have t: "same_timing (run ys ?r) (run ys ?g)"
    and f: "same_frames ?r ?g \<Longrightarrow> same_frames (run ys ?r) (run ys ?g)" by simp_all
  from t have c: "completions (observe ys (reset ?w)) = completions (observe ys ?f)"
    by (simp add: same_timing_def observe_def)
  have "frames (snd ?w) = []" if "tk = None \<or> frames (snd ?w) = []"
    using that no_tick_reachable [of xs c d t0 origin n] by auto
  then have "observe ys (reset ?w) = observe ys ?f" if "tk = None \<or> frames (snd ?w) = []"
    using that sf f by (simp add: same_frames_def observe_def)
  with r(1,2) c show ?thesis by blast
qed


text \<open>
  The statement above on a timer whose first run, with its progress loop, is
  over when \<^verbatim>\<open>reset()\<close> is called.
\<close>

theorem reset_like_fresh_witness:
  "(Some 8 = None \<or> frames (snd (run [Resume, Advance 16, Frame, Advance 1000, Frame, Timeout]
          (fresh 7 1000 (Some 8) 1000000 999000 0))) = [])
   \<and> fst (reset (run [Resume, Advance 16, Frame, Advance 1000, Frame, Timeout]
          (fresh 7 1000 (Some 8) 1000000 999000 0))) = constructor 7 1000 (Some 8)
   \<and> observe [Resume, Advance 16, Frame, Advance 1000, Timeout, Frame]
        (reset (run [Resume, Advance 16, Frame, Advance 1000, Frame, Timeout]
          (fresh 7 1000 (Some 8) 1000000 999000 0)))
      = observe [Resume, Advance 16, Frame, Advance 1000, Timeout, Frame]
          (fresh 7 1000 (Some 8) 1001016 999000 4)
   \<and> completions (observe [Resume, Advance 16, Frame, Advance 1000, Timeout, Frame]
          (fresh 7 1000 (Some 8) 1001016 999000 4)) = [Completion 7 1002032]"
proof -
  have f: "frames (snd (run [Resume, Advance 16, Frame, Advance 1000, Frame, Timeout]
          (fresh 7 1000 (Some 8) 1000000 999000 0))) = []"
    and n: "now (snd (run [Resume, Advance 16, Frame, Advance 1000, Frame, Timeout]
          (fresh 7 1000 (Some 8) 1000000 999000 0))) = 1001016"
    by (simp_all add: timer_defs host_defs call_tick_def loop_start_def js_div_def)
  have c: "completions (observe [Resume, Advance 16, Frame, Advance 1000, Timeout, Frame]
          (fresh 7 1000 (Some 8) 1001016 999000 4)) = [Completion 7 1002032]"
    by (simp add: observe_def timer_defs host_defs call_tick_def loop_start_def js_div_def)
  from reset_like_fresh
    [of "[Resume, Advance 16, Frame, Advance 1000, Frame, Timeout]" 7 1000 "Some 8" 1000000 999000 0
        "[Resume, Advance 16, Frame, Advance 1000, Timeout, Frame]" 4] f n c
  show ?thesis by simp
qed

section \<open>How many progress loops are active\<close>

lemma call_frame_cb_loops:
  "active_loops (call_frame_cb ts w f) \<le> active_loops w + (if is_loop f then 1 else 0)"
  by (cases w; cases f)
     (simp_all add: active_loops_def requestAnimationFrame_def call_tick_def split: option.splits)

lemma foldl_frame_cb_loops:
  "active_loops (foldl (call_frame_cb ts) w fs) \<le> active_loops w + length (filter is_loop fs)"
proof (induction fs arbitrary: w)
  case Nil
  then show ?case by simp
next
  case (Cons f fs)
  have "active_loops (foldl (call_frame_cb ts) (call_frame_cb ts w f) fs)
          \<le> active_loops (call_frame_cb ts w f) + length (filter is_loop fs)"
    by (rule Cons.IH)
  also have "\<dots> \<le> active_loops w + (if is_loop f then 1 else 0) + length (filter is_loop fs)"
    using call_frame_cb_loops [of ts w f] by simp
  finally show ?case by (simp split: if_splits)
qed

lemma frame_loops: "active_loops (frame w) \<le> active_loops w"
proof (cases w)
  case (Pair t h)
  have "active_loops (foldl (call_frame_cb (now h - timeOrigin h)) (t, h\<lparr>frames := []\<rparr>) (frames h))
          \<le> active_loops (t, h\<lparr>frames := []\<rparr>) + length (filter is_loop (frames h))"
    by (rule foldl_frame_cb_loops)
  with Pair show ?thesis by (simp add: active_loops_def)
qed


lemma pause_keeps_frames: "frames (snd (pause w)) = frames (snd w)"
  by (cases w) simp

lemma reset_keeps_frames: "frames (snd (reset w)) = frames (snd w)"
  by (cases w) simp


lemma resume_loops:
  "active_loops (resume w) =
     (if \<not> truthy (timerId (fst w)) \<and> tick (fst w) \<noteq> None then active_loops w + 1
      else active_loops w)"
  by (cases w)
     (simp add: active_loops_def setTimeout_def requestAnimationFrame_def split: prod.splits)

lemma step_loops:
  "active_loops (step x w) \<le>
     (if x = Resume \<and> \<not> truthy (timerId (fst w)) \<and> tick (fst w) \<noteq> None
      then active_loops w + 1 else active_loops w)"
proof (cases x)
  case Resume
  then show ?thesis by (simp add: resume_loops)
next
  case Pause
  then show ?thesis by (simp add: active_loops_def pause_keeps_frames)
next
  case Reset
  then show ?thesis by (simp add: active_loops_def reset_keeps_frames)
next
  case (Advance dt)
  then show ?thesis by (cases w) (simp add: active_loops_def)
next
  case Frame
  then show ?thesis by (simp add: frame_loops)
next
  case Timeout
  then show ?thesis by (cases w) (simp add: active_loops_def split: option.splits)
qed

lemma unhurried_step:
  assumes "active_loops w \<le> 1" "unhurried [x] w"
  shows "active_loops (step x w) \<le> 1"
  using step_loops [of x w] assms by (simp split: if_splits)

lemma reset_clears_handle:
  "timerId (fst (reset w)) = None" "tick (fst (reset w)) = tick (fst w)"
  "active_loops (reset w) = active_loops w"
  by (cases w; simp add: active_loops_def)+

lemma pause_clears_handle:
  "start (fst w) \<noteq> 0 \<Longrightarrow> timerId (fst (pause w)) = None"
  "tick (fst (pause w)) = tick (fst w)"
  "active_loops (pause w) = active_loops w"
  by (cases w; simp add: active_loops_def)+

lemma resume_after_reset_loops:
  "tick (fst w) \<noteq> None \<Longrightarrow> active_loops (resume (reset w)) = active_loops w + 1"
  by (simp only: resume_loops reset_clears_handle) (simp add: truthy_def)

lemma resume_after_pause_loops:
  "tick (fst w) \<noteq> None \<Longrightarrow> start (fst w) \<noteq> 0 \<Longrightarrow>
   active_loops (resume (pause w)) = active_loops w + 1"
  by (simp add: resume_loops pause_clears_handle truthy_def)

text \<open>
  From a state with at most one loop, a run keeps at most one loop active at
  every moment exactly when each loop-starting \<^verbatim>\<open>resume()\<close> in it finds no
  loop registered.
\<close>

lemma unhurried_iff:
  "active_loops w \<le> 1 \<Longrightarrow>
   unhurried xs w = (\<forall>n\<le>length xs. active_loops (run (take n xs) w) \<le> 1)"
proof (induction xs arbitrary: w)
  case Nil
  then show ?case by simp
next
  case (Cons x xs)
  show ?case
  proof
    assume u: "unhurried (x # xs) w"
    then have "unhurried [x] w" by simp
    from unhurried_step [OF Cons.prems this] have s: "active_loops (step x w) \<le> 1" .
    from u have "unhurried xs (step x w)" by simp
    with Cons.IH [OF s] have r: "\<forall>n\<le>length xs. active_loops (run (take n xs) (step x w)) \<le> 1"
      by simp
    show "\<forall>n\<le>length (x # xs). active_loops (run (take n (x # xs)) w) \<le> 1"
    proof (intro allI impI)
      fix n assume "n \<le> length (x # xs)"
      then show "active_loops (run (take n (x # xs)) w) \<le> 1"
        using r Cons.prems by (cases n) simp_all
    qed
  next
    assume a: "\<forall>n\<le>length (x # xs). active_loops (run (take n (x # xs)) w) \<le> 1"
    have r: "\<forall>n\<le>length xs. active_loops (run (take n xs) (step x w)) \<le> 1"
    proof (intro allI impI)
      fix n assume "n \<le> length xs"
      then have "Suc n \<le> length (x # xs)" by simp
      with a have "active_loops (run (take (Suc n) (x # xs)) w) \<le> 1" by blast
      then show "active_loops (run (take n xs) (step x w)) \<le> 1" by simp
    qed
    then have s: "active_loops (step x w) \<le> 1" by (auto dest: spec [of _ 0])
    from Cons.IH [OF s] r have u: "unhurried xs (step x w)" by simp
    have "active_loops w = 0"
      if "x = Resume" "\<not> truthy (timerId (fst w))" "tick (fst w) \<noteq> None"
      using that s by (simp add: resume_loops)
    with u show "unhurried (x # xs) w" by simp
  qed
qed

text \<open>
  C7, as stated, fails: \<^verbatim>\<open>pause()\<close> 416 ms into a run of 1000 ms followed by
  \<^verbatim>\<open>resume()\<close> leaves two progress loops registered for the next refresh.
\<close>

theorem two_loops_after_pause_resume:
  "active_loops (run [Resume, Advance 16, Frame, Advance 400, Pause, Resume, Advance 16, Frame]
      (fresh 7 1000 (Some 8) 1000000 999000 0)) = 2
   \<and> \<not> active_loops (run [Resume, Advance 16, Frame, Advance 400, Pause, Resume, Advance 16, Frame]
      (fresh 7 1000 (Some 8) 1000000 999000 0)) \<le> 1"
  by (simp add: active_loops_def timer_defs host_defs call_tick_def loop_start_def js_div_def)

text \<open>
  C7, amended. In any state \<open>w\<close>, \<^verbatim>\<open>pause()\<close> and \<^verbatim>\<open>reset()\<close> leave the
  pending frame callbacks exactly as they are, and \<^verbatim>\<open>resume()\<close> adds exactly
  one loop to those registered when it finds no handle and the timer has a
  progress callback, and none otherwise; so \<^verbatim>\<open>resume()\<close> after
  \<^verbatim>\<open>reset()\<close>, or after a \<^verbatim>\<open>pause()\<close> that found a recorded start, adds
  a loop to whatever is still ticking. From a state with at most one active
  loop, at most one loop is active at every moment of a run if and only if each
  loop-starting \<^verbatim>\<open>resume()\<close> of the run is issued when no earlier loop is
  registered; in particular at most one is active at the end of such a run.
\<close>

theorem one_loop_unless_resumed_early:
  "frames (snd (pause w)) = frames (snd w) \<and> frames (snd (reset w)) = frames (snd w)
   \<and> active_loops (resume w)
       = (if \<not> truthy (timerId (fst w)) \<and> tick (fst w) \<noteq> None then active_loops w + 1
          else active_loops w)
   \<and> (tick (fst w) \<noteq> None \<longrightarrow> active_loops (resume (reset w)) = active_loops w + 1)
   \<and> (tick (fst w) \<noteq> None \<and> start (fst w) \<noteq> 0
        \<longrightarrow> active_loops (resume (pause w)) = active_loops w + 1)
   \<and> (active_loops w \<le> 1
        \<longrightarrow> unhurried xs w = (\<forall>n\<le>length xs. active_loops (run (take n xs) w) \<le> 1))
   \<and> (active_loops w \<le> 1 \<and> unhurried xs w \<longrightarrow> active_loops (run xs w) \<le> 1)"
proof -
  have run: "active_loops w \<le> 1 \<and> unhurried xs w \<longrightarrow> active_loops (run xs w) \<le> 1"
  proof
    assume h: "active_loops w \<le> 1 \<and> unhurried xs w"
    then have "active_loops w \<le> 1" and u: "unhurried xs w" by simp_all
    from unhurried_iff [OF this(1), of xs] u
    have "\<forall>n\<le>length xs. active_loops (run (take n xs) w) \<le> 1" by simp
    then have "active_loops (run (take (length xs) xs) w) \<le> 1" by blast
    then show "active_loops (run xs w) \<le> 1" by simp
  qed
  have iff: "active_loops w \<le> 1
        \<longrightarrow> unhurried xs w = (\<forall>n\<le>length xs. active_loops (run (take n xs) w) \<le> 1)"
    using unhurried_iff [of w xs] by blast
  have rs: "tick (fst w) \<noteq> None \<longrightarrow> active_loops (resume (reset w)) = active_loops w + 1"
    using resume_after_reset_loops [of w] by blast
  have ps: "tick (fst w) \<noteq> None \<and> start (fst w) \<noteq> 0
        \<longrightarrow> active_loops (resume (pause w)) = active_loops w + 1"
    using resume_after_pause_loops [of w] by blast
  show ?thesis
    by (intro conjI pause_keeps_frames reset_keeps_frames resume_loops rs ps iff run)
qed

text \<open>
  The statement above on a timer whose first run is over: \<^verbatim>\<open>reset()\<close> and
  \<^verbatim>\<open>resume()\<close>, a \<^verbatim>\<open>pause()\<close> at 416 ms, and a second \<^verbatim>\<open>resume()\<close>
  once the loop has ended.
\<close>

theorem one_loop_unless_resumed_early_witness:
  "tick (fst (run [Resume, Advance 16, Frame, Advance 1000, Frame, Timeout]
          (fresh 7 1000 (Some 8) 1000000 999000 0))) \<noteq> None \<and> start (fst (run [Resume, Advance 16, Frame, Advance 1000, Frame, Timeout]
          (fresh 7 1000 (Some 8) 1000000 999000 0))) \<noteq> 0 \<and> active_loops (run [Resume, Advance 16, Frame, Advance 1000, Frame, Timeout]
          (fresh 7 1000 (Some 8) 1000000 999000 0)) \<le> 1
   \<and> unhurried [Reset, Resume, Advance 16, Frame, Advance 400, Pause, Advance 700, Frame, Resume,
          Advance 16, Frame] (run [Resume, Advance 16, Frame, Advance 1000, Frame, Timeout]
          (fresh 7 1000 (Some 8) 1000000 999000 0))
   \<and> (5::nat) \<le> length [Reset, Resume, Advance 16, Frame, Advance 400, Pause, Advance 700, Frame, Resume,
          Advance 16, Frame]
   \<and> frames (snd (pause (run [Resume, Advance 16, Frame, Advance 1000, Frame, Timeout]
          (fresh 7 1000 (Some 8) 1000000 999000 0)))) = frames (snd (run [Resume, Advance 16, Frame, Advance 1000, Frame, Timeout]
          (fresh 7 1000 (Some 8) 1000000 999000 0)))
   \<and> active_loops (resume (reset (run [Resume, Advance 16, Frame, Advance 1000, Frame, Timeout]
          (fresh 7 1000 (Some 8) 1000000 999000 0)))) = active_loops (run [Resume, Advance 16, Frame, Advance 1000, Frame, Timeout]
          (fresh 7 1000 (Some 8) 1000000 999000 0)) + 1
   \<and> active_loops (resume (pause (run [Resume, Advance 16, Frame, Advance 1000, Frame, Timeout]
          (fresh 7 1000 (Some 8) 1000000 999000 0)))) = active_loops (run [Resume, Advance 16, Frame, Advance 1000, Frame, Timeout]
          (fresh 7 1000 (Some 8) 1000000 999000 0)) + 1
   \<and> active_loops (run (take 5 [Reset, Resume, Advance 16, Frame, Advance 400, Pause, Advance 700, Frame, Resume,
          Advance 16, Frame]) (run [Resume, Advance 16, Frame, Advance 1000, Frame, Timeout]
          (fresh 7 1000 (Some 8) 1000000 999000 0))) \<le> 1
   \<and> active_loops (run [Reset, Resume, Advance 16, Frame, Advance 400, Pause, Advance 700, Frame, Resume,
          Advance 16, Frame] (run [Resume, Advance 16, Frame, Advance 1000, Frame, Timeout]
          (fresh 7 1000 (Some 8) 1000000 999000 0))) \<le> 1"
proof -
  have w: "(run [Resume, Advance 16, Frame, Advance 1000, Frame, Timeout]
          (fresh 7 1000 (Some 8) 1000000 999000 0)) = (\<lparr>cb = 7, delay = 1000, tick = Some 8, remaining = 1000, start = 1000000,
                 timerId = Some 1\<rparr>,
               \<lparr>now = 1001016, timeOrigin = 999000, nextId = 2, timeouts = [], frames = [],
                 trace = [Progress 8 (Fin 0) 1000016, Progress 8 (Fin 0) 1000016,
                          Progress 8 (Fin 100) 1001016, Completion 7 1001016]\<rparr>)"
    by (simp add: timer_defs host_defs call_tick_def loop_start_def js_div_def)
  have h: "tick (fst (run [Resume, Advance 16, Frame, Advance 1000, Frame, Timeout]
          (fresh 7 1000 (Some 8) 1000000 999000 0))) \<noteq> None" "start (fst (run [Resume, Advance 16, Frame, Advance 1000, Frame, Timeout]
          (fresh 7 1000 (Some 8) 1000000 999000 0))) \<noteq> 0" "active_loops (run [Resume, Advance 16, Frame, Advance 1000, Frame, Timeout]
          (fresh 7 1000 (Some 8) 1000000 999000 0)) \<le> 1"
    unfolding w by (simp_all add: active_loops_def)
  have u: "unhurried [Reset, Resume, Advance 16, Frame, Advance 400, Pause, Advance 700, Frame, Resume,
          Advance 16, Frame] (run [Resume, Advance 16, Frame, Advance 1000, Frame, Timeout]
          (fresh 7 1000 (Some 8) 1000000 999000 0))"
    unfolding w
    by (simp add: active_loops_def truthy_def host_defs call_tick_def loop_start_def js_div_def)
  have n: "(5::nat) \<le> length [Reset, Resume, Advance 16, Frame, Advance 400, Pause, Advance 700, Frame, Resume,
          Advance 16, Frame]" by simp
  note T = one_loop_unless_resumed_early [of "(run [Resume, Advance 16, Frame, Advance 1000, Frame, Timeout]
          (fresh 7 1000 (Some 8) 1000000 999000 0))" "[Reset, Resume, Advance 16, Frame, Advance 400, Pause, Advance 700, Frame, Resume,
          Advance 16, Frame]"]
  from T have p: "frames (snd (pause (run [Resume, Advance 16, Frame, Advance 1000, Frame, Timeout]
          (fresh 7 1000 (Some 8) 1000000 999000 0)))) = frames (snd (run [Resume, Advance 16, Frame, Advance 1000, Frame, Timeout]
          (fresh 7 1000 (Some 8) 1000000 999000 0)))" by blast
  from T h have r: "active_loops (resume (reset (run [Resume, Advance 16, Frame, Advance 1000, Frame, Timeout]
          (fresh 7 1000 (Some 8) 1000000 999000 0)))) = active_loops (run [Resume, Advance 16, Frame, Advance 1000, Frame, Timeout]
          (fresh 7 1000 (Some 8) 1000000 999000 0)) + 1" by blast
  from T h have q: "active_loops (resume (pause (run [Resume, Advance 16, Frame, Advance 1000, Frame, Timeout]
          (fresh 7 1000 (Some 8) 1000000 999000 0)))) = active_loops (run [Resume, Advance 16, Frame, Advance 1000, Frame, Timeout]
          (fresh 7 1000 (Some 8) 1000000 999000 0)) + 1" by blast
  from T h u have "\<forall>n\<le>length [Reset, Resume, Advance 16, Frame, Advance 400, Pause, Advance 700, Frame, Resume,
          Advance 16, Frame]. active_loops (run (take n [Reset, Resume, Advance 16, Frame, Advance 400, Pause, Advance 700, Frame, Resume,
          Advance 16, Frame]) (run [Resume, Advance 16, Frame, Advance 1000, Frame, Timeout]
          (fresh 7 1000 (Some 8) 1000000 999000 0))) \<le> 1" by blast
  with n have m: "active_loops (run (take 5 [Reset, Resume, Advance 16, Frame, Advance 400, Pause, Advance 700, Frame, Resume,
          Advance 16, Frame]) (run [Resume, Advance 16, Frame, Advance 1000, Frame, Timeout]
          (fresh 7 1000 (Some 8) 1000000 999000 0))) \<le> 1" by blast
  from T h u have f: "active_loops (run [Reset, Resume, Advance 16, Frame, Advance 400, Pause, Advance 700, Frame, Resume,
          Advance 16, Frame] (run [Resume, Advance 16, Frame, Advance 1000, Frame, Timeout]
          (fresh 7 1000 (Some 8) 1000000 999000 0))) \<le> 1" by blast
  show ?thesis by (intro conjI h u n p r q m f)
qed

section \<open>The values reported between two resume() calls\<close>






lemma progress_values_simps [simp]:
  "progress_values [] = []"
  "progress_values (e # es) = reported e @ progress_values es"
  "progress_values (es @ es') = progress_values es @ progress_values es'"
  by (simp_all add: progress_values_def)



















































text \<open>
  A refresh with timestamp 0 leaves the closure's \<^verbatim>\<open>start\<close> falsy, so the
  next refresh sets it anew and reports 0 again, however late it comes; this is
  why reaching 100 is stated for positive timestamps.
\<close>

lemma zero_timestamp_restarts_loop:
  "progress_values (trace (snd (run [Resume, Frame, Advance 1000, Frame]
      (fresh 7 1000 (Some 8) 1000000 1000000 0)))) = [Fin 0, Fin 0, Fin 0]"
  by (simp add: timer_defs host_defs call_tick_def loop_start_def js_div_def)


text \<open>
  With \<^verbatim>\<open>delay = 0\<close> the first refresh computes \<open>0 / 0\<close> and reports NaN,
  which is why the statement below asks for a positive delay.
\<close>

lemma zero_delay_reports_nan:
  "progress_values (trace (snd (run [Resume, Advance 16, Frame]
      (fresh 7 0 (Some 8) 1000000 999000 0)))) = [Fin 0, NaN]"
  by (simp add: timer_defs host_defs call_tick_def loop_start_def js_div_def)



section \<open>Attribute values that fail validation\<close>

lemmas booster_defs =
  Booster_parse_def Booster_validate_def DataStore_set_def DataStore_get_def nullish_def
  autoTabBooster_attributes_def isBoolean_def stringToBoolean_def isNumber_def isNaN_def

lemmas number_defs =
  Number_def trim_def is_ws_def radix_literal_def signed_decimal_def unsigned_decimal_def
  exponent_part_def scale10_def is_digit_def digit_of_def digits_value_def

lemma Number_examples:
  "Number ''5000'' = Fin 5000" "Number ''3000'' = Fin 3000" "Number '' 12.5e2 '' = Fin 1250"
  "Number ''0x1F'' = Fin 31" "Number [] = Fin 0" "Number ''5s'' = NaN" "Number ''fast'' = NaN"
  "Number ''-Infinity'' = NegInf" "Number ''1e-2'' = Fin (1 / 100)" "Number ''.'' = NaN"
  by (simp_all add: number_defs Let_def)

text \<open>
  A value that is present, not empty and not admissible leaves the store as it
  was for its key, whatever the attribute.
\<close>

lemma parse_loop_other_keys:
  "key \<notin> fst ` set attrs \<Longrightarrow> fst (parse_loop attrs el (ds, lg)) key = ds key"
proof (induction attrs arbitrary: ds lg)
  case Nil
  then show ?case by simp
next
  case (Cons x attrs)
  obtain k a where x: "x = (k, a)" by (cases x)
  with Cons.prems have k: "key \<noteq> k" "key \<notin> fst ` set attrs" by auto
  show ?case
    unfolding x
    by (simp add: Cons.IH [OF k(2)] DataStore_set_def k(1) split: option.splits prod.splits)
qed

lemma parse_loop_invalid_value:
  assumes "el key = Some v" "v \<noteq> []" "\<not> fst (Booster_validate a key v)"
    and "key \<notin> fst ` set rest"
  shows "fst (parse_loop ((key, a) # rest) el (ds, lg)) key = ds key"
proof -
  obtain ok msgs where r: "Booster_validate a key v = (ok, msgs)"
    by (cases "Booster_validate a key v")
  with assms(3) have "\<not> ok" by simp
  with assms(1,2,4) r show ?thesis by (simp add: parse_loop_other_keys)
qed

text \<open>
  C9. \<^verbatim>\<open>fb-tabs-speed="5s"\<close> fails \<^verbatim>\<open>validation.isNumber\<close>. The parse logs
  the invalid value and stores nothing, so \<^verbatim>\<open>dataStore.get("fb-tabs-speed")\<close>
  is \<^verbatim>\<open>undefined\<close>, not the default 5000 that an absent attribute gets; a
  valid \<^verbatim>\<open>"3000"\<close> is stored as 3000.
\<close>

theorem invalid_speed_is_not_defaulted:
  "DataStore_get (fst (Booster_parse autoTabBooster_attributes [''fb-tabs-speed'' \<mapsto> ''5s'']))
      ''fb-tabs-speed'' = Undefined
   \<and> snd (Booster_parse autoTabBooster_attributes [''fb-tabs-speed'' \<mapsto> ''5s''])
      = [Log (invalid_message ''5s'' ''fb-tabs-speed'') None]
   \<and> DataStore_get (fst (Booster_parse autoTabBooster_attributes Map.empty))
      ''fb-tabs-speed'' = JNum (Fin 5000)
   \<and> DataStore_get (fst (Booster_parse autoTabBooster_attributes [''fb-tabs-speed'' \<mapsto> ''3000'']))
      ''fb-tabs-speed'' = JNum (Fin 3000)"
  by (simp add: booster_defs Number_examples)

end
